theory Spec2Isabelle
  imports
    Complex_Main
    "HOL-Library.Char_ord"
    "HOL-Library.List_Lexorder"
    "HOL-Library.Sublist"
    "HOL-Library.AList"
    "HOL-Library.Multiset"
begin

section \<open>Strings and the Go standard-library helpers the code calls\<close>

text \<open>
  Go strings and byte slices are byte sequences, modelled as \<^typ>\<open>string\<close>
  (a list of 8-bit characters).  Go compares strings and pebble compares keys bytewise
  and lexicographically; that is the order the theories \<open>Char_ord\<close> and
  \<open>List_Lexorder\<close> put on \<^typ>\<open>string\<close>.
\<close>

text \<open>
  The errors of the code: its own sentinels, the run-time panics it can reach (of the
  Go runtime, and of pebble when a closed database is used), and the errors it passes
  on from the encoders and from the operating system (each with
  the message of the library that raised it).
\<close>

datatype error =
    ErrBlocked
  | ErrNotFound
  | ErrInvalidTag string
  | PanicOutOfRange
  | PanicMakeSlice
  | PanicClosed
  | EncodingError string
  | TimeParseError string
  | OSError string
  | Joined "error list"

text \<open>\<^verbatim>\<open>strings.Split(s, sep)\<close> for a one-byte separator: never empty,
  \<^verbatim>\<open>Split("", sep) = [""]\<close>.\<close>

fun strings_Split :: "char \<Rightarrow> string \<Rightarrow> string list" where
  "strings_Split sep [] = [Nil]"
| "strings_Split sep (c # cs) =
     (if c = sep then [] # strings_Split sep cs
      else (case strings_Split sep cs of
              [] \<Rightarrow> [c # Nil]
            | r # rs \<Rightarrow> (c # r) # rs))"

text \<open>\<^verbatim>\<open>strings.Index(s, substr)\<close>: the first position of a substring,
  \<open>None\<close> for Go's \<open>-1\<close>.\<close>

fun strings_Index :: "string \<Rightarrow> string \<Rightarrow> nat option" where
  "strings_Index [] sub = (if sub = [] then Some 0 else None)"
| "strings_Index (c # cs) sub =
     (if prefix sub (c # cs) then Some 0 else map_option Suc (strings_Index cs sub))"

text \<open>\<^verbatim>\<open>strings.LastIndexByte(s, c)\<close>.\<close>

fun strings_LastIndexByte :: "string \<Rightarrow> char \<Rightarrow> nat option" where
  "strings_LastIndexByte [] b = None"
| "strings_LastIndexByte (c # cs) b =
     (case strings_LastIndexByte cs b of
        Some i \<Rightarrow> Some (Suc i)
      | None \<Rightarrow> (if c = b then Some 0 else None))"

text \<open>\<^verbatim>\<open>strings.Cut(s, sep)\<close> returns \<open>(before, after, found)\<close>.\<close>

definition strings_Cut :: "string \<Rightarrow> string \<Rightarrow> string \<times> string \<times> bool" where
  "strings_Cut s sep =
     (case strings_Index s sep of
        None \<Rightarrow> (s, [], False)
      | Some i \<Rightarrow> (take i s, drop (i + length sep) s, True))"

definition strings_TrimSuffix :: "string \<Rightarrow> string \<Rightarrow> string" where
  "strings_TrimSuffix s suf = (if suffix suf s then take (length s - length suf) s else s)"

definition strings_TrimPrefix :: "string \<Rightarrow> string \<Rightarrow> string" where
  "strings_TrimPrefix s pre = (if prefix pre s then drop (length pre) s else s)"

text \<open>\<^verbatim>\<open>path.Ext\<close>: the suffix beginning at the final dot of the final
  slash-separated element, empty when that element has no dot.\<close>

definition path_Ext :: "string \<Rightarrow> string" where
  "path_Ext p =
     (let r = rev p;
          stop = (\<lambda>c. c = CHR ''.'' \<or> c = CHR ''/'')
      in (case dropWhile (\<lambda>c. \<not> stop c) r of
            [] \<Rightarrow> []
          | c # _ \<Rightarrow> (if c = CHR ''.'' then CHR ''.'' # rev (takeWhile (\<lambda>c. \<not> stop c) r)
                      else [])))"

section \<open>Tag extraction (package tags)\<close>

definition isNum :: "string \<Rightarrow> bool" where
  "isNum s = list_all (\<lambda>c. \<not> (c < CHR ''0'' \<or> c > CHR ''9'')) s"

definition soversionIsValid :: "string \<Rightarrow> bool" where
  "soversionIsValid s =
     (if s = [] then True else list_all isNum (strings_Split (CHR ''.'') s))"

definition manualName :: "string \<Rightarrow> string" where
  "manualName fileName0 =
     (let fileName = strings_TrimSuffix fileName0 ''.gz'';
          ext = path_Ext fileName
      in if length ext = 0 \<or> \<not> isNum (drop 1 ext) then [] else fileName)"

text \<open>One round of the loop of \<^verbatim>\<open>pythonName\<close> over the two start markers.\<close>

fun pythonName_loop :: "string \<Rightarrow> string list \<Rightarrow> string" where
  "pythonName_loop filePath [] = []"
| "pythonName_loop filePath (marker # markers) =
     (case strings_Index filePath marker of
        None \<Rightarrow> pythonName_loop filePath markers
      | Some i \<Rightarrow>
          (let start = i + 15 in
           case strings_Index (drop start filePath) ''/'' of
             None \<Rightarrow> pythonName_loop filePath markers
           | Some e \<Rightarrow> take e (drop start filePath)))"

definition pythonName :: "string \<Rightarrow> string" where
  "pythonName filePath = pythonName_loop filePath [''/dist-packages/'', ''/site-packages/'']"

text \<open>
  The body of the \<^verbatim>\<open>switch elem\<close> of \<^verbatim>\<open>Generate\<close>, on the loop state
  \<open>(tags, added)\<close>.  The test on \<^verbatim>\<open>lastChar\<close> is the source's:
  \<^verbatim>\<open>lastChar >= '0' || lastChar <= '9'\<close>.
\<close>

definition Generate_lib :: "string \<Rightarrow> string list \<times> bool \<Rightarrow> string list \<times> bool" where
  "Generate_lib name st =
     (case strings_Cut name ''.so'' of
        (libName, soversion, ok) \<Rightarrow>
          if ok \<and> soversionIsValid soversion then
            (let tags1 = fst st @ [''lib='' @ name];
                 lastChar = last name;
                 tags2 = (if lastChar \<ge> CHR ''0'' \<or> lastChar \<le> CHR ''9''
                          then tags1 @ [''lib='' @ libName @ ''.so'']
                                 @ [''lib='' @ strings_TrimPrefix libName ''lib'']
                          else tags1)
             in (tags2, True))
          else if path_Ext name = ''.a'' then
            (fst st @ [''lib='' @ name] @ [''lib='' @ strings_TrimSuffix name ''.a''], True)
          else st)"

definition Generate_case ::
  "string \<Rightarrow> string \<Rightarrow> string \<Rightarrow> string list \<times> bool \<Rightarrow> string list \<times> bool" where
  "Generate_case filePath name elem st =
     (if elem \<in> {''usr'', ''opt'', ''local'', ''share''} then st
      else if elem \<in> {''bin'', ''sbin''} then (fst st @ [''bin='' @ name], True)
      else if elem \<in> {''icons'', ''pixmaps''} then
        (if path_Ext name \<in> {''.svg'', ''.png'', ''.jpg'', ''.jpeg''}
         then (fst st @ [''icon='' @ name], True) else st)
      else if elem = ''man'' then
        (let manName = manualName name in
         if manName \<noteq> [] then (fst st @ [''man='' @ manName], True) else st)
      else if elem \<in> {''dist-packages'', ''site-packages''} then
        (let pyName = pythonName filePath in
         if pyName \<noteq> [] then (fst st @ [''py='' @ pyName], True) else st)
      else if elem \<in> {''pkgconfig'', ''pkg-config''} then
        (if path_Ext name = ''.pc''
         then (fst st @ [''pkgcfg='' @ strings_TrimSuffix name ''.pc''], True) else st)
      else if elem = ''applications'' then
        (if path_Ext name = ''.desktop''
         then (fst st @ [''desktop='' @ strings_TrimSuffix name ''.desktop''], True) else st)
      else if elem = ''dbus-1'' then
        (if path_Ext name = ''.service''
         then (fst st @ [''dbus='' @ strings_TrimSuffix name ''.service''], True) else st)
      else if elem = ''systemd'' then
        (if path_Ext name \<in> {''.service'', ''.target'', ''.socket'', ''.timer''}
         then (fst st @ [''systemd='' @ name], True) else st)
      else if elem = ''include'' then
        (if path_Ext name \<in> {''.h'', ''.hh'', ''.hpp'', ''.hxx'', ''h++''} then
           (case strings_Cut filePath ''include/'' of
              (_, hdrName, ok) \<Rightarrow>
                (fst st @ [''hdr='' @ (if ok then hdrName else name)], True))
         else st)
      else if elem \<in> {''lib'', ''lib32'', ''lib64''} then Generate_lib name st
      else st)"

text \<open>The \<^verbatim>\<open>for _, elem := range pathElems\<close> loop: it stops at the first element
  after which \<^verbatim>\<open>added\<close> is set.\<close>

fun Generate_loop ::
  "string \<Rightarrow> string \<Rightarrow> string list \<Rightarrow> string list \<times> bool \<Rightarrow> string list \<times> bool" where
  "Generate_loop filePath name [] st = st"
| "Generate_loop filePath name (elem # rest) st =
     (let st' = Generate_case filePath name elem st
      in if snd st' then st' else Generate_loop filePath name rest st')"

text \<open>
  \<^verbatim>\<open>Generate\<close>.  A path without any slash makes \<^verbatim>\<open>filePath[:lastSlash]\<close>
  a slice with bound \<open>-1\<close>, which panics.
\<close>

definition Generate :: "string \<Rightarrow> error + string list" where
  "Generate filePath =
     (case strings_LastIndexByte filePath (CHR ''/'') of
        None \<Rightarrow> Inl PanicOutOfRange
      | Some lastSlash \<Rightarrow>
          (let name = drop (lastSlash + 1) filePath;
               dir = take lastSlash filePath;
               pathElems = strings_Split (CHR ''/'') dir;
               st = Generate_loop filePath name pathElems ([], False)
           in if \<not> snd st then Inr (fst st @ [''file='' @ filePath]) else Inr (fst st)))"

section \<open>The shard store\<close>

subsection \<open>External libraries\<close>

text \<open>
  \<^verbatim>\<open>float32\<close>, as far as the code uses it: the quotient of two slice lengths and
  its comparisons.  A finite value is kept as the exact rational it rounds; the quotient
  \<open>0/0\<close> is \<open>NaN\<close> and \<open>x/0\<close> for a positive \<open>x\<close> is \<open>+Inf\<close>.
\<close>

datatype float32 = F32_NaN | F32_Inf | F32 rat

definition float32_div_len :: "nat \<Rightarrow> nat \<Rightarrow> float32" where
  "float32_div_len a b =
     (if b = 0 then (if a = 0 then F32_NaN else F32_Inf)
      else F32 (of_nat a / of_nat b))"

fun float32_less :: "float32 \<Rightarrow> float32 \<Rightarrow> bool" where
  "float32_less (F32 a) (F32 b) = (a < b)"
| "float32_less (F32 a) F32_Inf = True"
| "float32_less _ _ = False"

text \<open>
  The database is a pebble key-value store with bytewise-ordered keys.  It is modelled by
  its contents, an association list read with \<^const>\<open>map_of\<close> and written with
  \<^const>\<open>AList.update\<close>; an iterator visits the keys of the range
  \<open>[lower, upper)\<close> in ascending order.  Reads and writes of the database itself are
  taken to succeed (a missing key apart).
\<close>

type_synonym kv = "(string \<times> string) list"

definition db_Get :: "kv \<Rightarrow> string \<Rightarrow> error + string" where
  "db_Get d key = (case map_of d key of None \<Rightarrow> Inl ErrNotFound | Some v \<Rightarrow> Inr v)"

definition db_Set :: "kv \<Rightarrow> string \<Rightarrow> string \<Rightarrow> kv" where
  "db_Set d key val = AList.update key val d"

definition db_NewIter :: "kv \<Rightarrow> string \<Rightarrow> string \<Rightarrow> kv" where
  "db_NewIter d lower upper =
     List.map_filter (\<lambda>k. map_option (Pair k) (map_of d k))
       (filter (\<lambda>k. lower \<le> k \<and> k < upper) (sort (remdups (map fst d))))"

text \<open>A pebble batch: the writes recorded by \<^verbatim>\<open>b.Set\<close>, applied in order by
  \<^verbatim>\<open>b.Commit\<close>.\<close>

definition batch_Commit :: "kv \<Rightarrow> (string \<times> string) list \<Rightarrow> kv" where
  "batch_Commit d b = fold (\<lambda>(k, v) d'. db_Set d' k v) b d"

text \<open>Repository metadata; the time stamp is opaque here.\<close>

record RepoMeta =
  ETag :: string
  LastModified :: int

text \<open>
  The libraries the store calls and that are not part of the repository: the scalable
  bloom filter \<^verbatim>\<open>sbloom.Filter\<close> (over a type \<open>'f\<close> of filter states) with its
  gob encoding, the JSON encoding of \<^typ>\<open>RepoMeta\<close>, and \<^verbatim>\<open>time.Parse\<close> for the
  RFC 1123 layout.  They are parameters of every function that calls them.  An encoder or
  parser returns \<open>Inl\<close> with its message when it fails.
\<close>

record 'f extern =
  NewFilter :: "'f"
  Add :: "'f \<Rightarrow> string \<Rightarrow> 'f"
  Lookup :: "'f \<Rightarrow> string \<Rightarrow> bool"
  GobEncode :: "'f \<Rightarrow> string + string"
  GobDecode :: "string \<Rightarrow> string + 'f"
  json_Marshal :: "RepoMeta \<Rightarrow> string + string"
  json_Unmarshal :: "string \<Rightarrow> string + RepoMeta"
  time_Parse :: "string \<Rightarrow> string + int"

subsection \<open>Data\<close>

record Package =
  Name :: string
  Tags :: "string list"

text \<open>\<^verbatim>\<open>index.Record\<close> has the fields of a package and an error.\<close>

record Record = Package +
  Error :: "error option"

text \<open>
  A store: its path, its database handle (the contents it is open on, and whether it
  has been closed), the number of search workers, and the readers-writer lock
  \<^verbatim>\<open>blocked\<close>, of which the model keeps whether the write lock is held (by a
  \<^verbatim>\<open>Replace\<close> in flight).  \<^verbatim>\<open>TryRLock\<close> fails exactly then; every operation
  that takes the read lock releases it before it returns.  Pebble panics when a closed
  database is read, written or closed again.
\<close>

record Store =
  Path :: string
  db :: kv
  db_closed :: bool
  blocked :: bool
  SearchThreads :: int

definition TryRLock :: "Store \<Rightarrow> bool" where
  "TryRLock s = (\<not> blocked s)"

type_synonym 'f filters = "(char \<times> 'f) list"

subsection \<open>Writing\<close>

text \<open>The loop of \<^verbatim>\<open>joinTags\<close>: every tag is added to the filter and written
  to the buffer, with \<open>0x1F\<close> after every tag but the last.\<close>

fun joinTags_loop :: "'f extern \<Rightarrow> string list \<Rightarrow> 'f \<Rightarrow> string \<times> 'f" where
  "joinTags_loop ext [] f = ([], f)"
| "joinTags_loop ext (tag # rest) f =
     (let f' = Add ext f tag;
          sep = (if rest \<noteq> [] then [CHR 0x1F] else []);
          (out, f'') = joinTags_loop ext rest f'
      in (tag @ sep @ out, f''))"

definition joinTags ::
  "'f extern \<Rightarrow> char \<Rightarrow> string list \<Rightarrow> 'f filters \<Rightarrow> string \<times> 'f filters" where
  "joinTags ext firstChar tags filters =
     (let f0 = (case map_of filters firstChar of None \<Rightarrow> NewFilter ext | Some f \<Rightarrow> f);
          (out, f) = joinTags_loop ext tags f0
      in (out, AList.update firstChar f filters))"

text \<open>
  \<^verbatim>\<open>WriteBatch\<close>.  The batch is a Go map from names to records; the list gives
  the order in which the \<^verbatim>\<open>range\<close> visits it.  Reads go to the database as it was
  before the batch, writes to the batch, which is committed at the end.  On a closed
  database the first read, or else the commit, panics before any filter is touched.
  \<^verbatim>\<open>slices.Sort\<close> followed by \<^verbatim>\<open>slices.Compact\<close> is
  \<open>remdups_adj \<circ> sort\<close>.
\<close>

fun WriteBatch_loop ::
  "'f extern \<Rightarrow> kv \<Rightarrow> Record list \<Rightarrow> (string \<times> string) list \<times> 'f filters
     \<Rightarrow> (string \<times> string) list \<times> 'f filters" where
  "WriteBatch_loop ext d [] st = st"
| "WriteBatch_loop ext d (item # items) (b, filters) =
     (if length (Name item) = 0 \<or> length (Tags item) = 0
      then WriteBatch_loop ext d items (b, filters)
      else
        (let key = Name item;
             tags = (case db_Get d key of
                       Inl _ \<Rightarrow> remdups_adj (sort (Tags item))
                     | Inr curVal \<Rightarrow>
                         remdups_adj (sort (strings_Split (CHR 0x1F) curVal @ Tags item)));
             (val, filters') = joinTags ext (hd (Name item)) tags filters
         in WriteBatch_loop ext d items (b @ [(key, val)], filters')))"

definition WriteBatch ::
  "'f extern \<Rightarrow> Store \<Rightarrow> Record list \<Rightarrow> 'f filters \<Rightarrow> error option \<times> Store \<times> 'f filters" where
  "WriteBatch ext s batch filters =
     (if \<not> TryRLock s then (Some ErrBlocked, s, filters)
      else if db_closed s then (Some PanicClosed, s, filters)
      else
        (let (b, filters') = WriteBatch_loop ext (db s) batch ([], filters)
         in (None, s\<lparr>db := batch_Commit (db s) b\<rparr>, filters')))"

text \<open>\<^verbatim>\<open>WriteFilters\<close> writes each filter directly to the database; an encoding
  error returns with the earlier filters already written.  The flag says whether the
  database is closed: then the first write panics.\<close>

fun WriteFilters_loop :: "'f extern \<Rightarrow> bool \<Rightarrow> 'f filters \<Rightarrow> kv \<Rightarrow> error option \<times> kv" where
  "WriteFilters_loop ext cl [] d = (None, d)"
| "WriteFilters_loop ext cl ((firstChar, flt) # rest) d =
     (case GobEncode ext flt of
        Inl msg \<Rightarrow> (Some (EncodingError msg), d)
      | Inr data \<Rightarrow>
          (if cl then (Some PanicClosed, d)
           else WriteFilters_loop ext cl rest (db_Set d [CHR 0x02, firstChar] data)))"

definition WriteFilters :: "'f extern \<Rightarrow> Store \<Rightarrow> 'f filters \<Rightarrow> error option \<times> Store" where
  "WriteFilters ext s filters =
     (if \<not> TryRLock s then (Some ErrBlocked, s)
      else (let (err, d) = WriteFilters_loop ext (db_closed s) filters (db s)
            in (err, s\<lparr>db := d\<rparr>)))"

definition metaKey :: string where
  "metaKey = CHR 0x02 # ''META''"

definition WriteMeta :: "'f extern \<Rightarrow> Store \<Rightarrow> RepoMeta \<Rightarrow> error option \<times> Store" where
  "WriteMeta ext s meta =
     (if \<not> TryRLock s then (Some ErrBlocked, s)
      else (case json_Marshal ext meta of
              Inl msg \<Rightarrow> (Some (EncodingError msg), s)
            | Inr data \<Rightarrow>
                (if db_closed s then (Some PanicClosed, s)
                 else (None, s\<lparr>db := db_Set (db s) metaKey data\<rparr>))))"

text \<open>\<^verbatim>\<open>Close\<close> closes the database handle.\<close>

definition Close :: "Store \<Rightarrow> error option \<times> Store" where
  "Close s =
     (if \<not> TryRLock s then (Some ErrBlocked, s)
      else if db_closed s then (Some PanicClosed, s)
      else (None, s\<lparr>db_closed := True\<rparr>))"

subsection \<open>Reading\<close>

definition GetFilter :: "'f extern \<Rightarrow> Store \<Rightarrow> char \<Rightarrow> error + 'f" where
  "GetFilter ext s firstChar =
     (if \<not> TryRLock s then Inl ErrBlocked
      else if db_closed s then Inl PanicClosed
      else (case db_Get (db s) [CHR 0x02, firstChar] of
              Inl err \<Rightarrow> Inl err
            | Inr data \<Rightarrow>
                (case GobDecode ext data of
                   Inl msg \<Rightarrow> Inl (EncodingError msg)
                 | Inr flt \<Rightarrow> Inr flt)))"

definition GetPkg :: "Store \<Rightarrow> string \<Rightarrow> error + Package" where
  "GetPkg s name =
     (if \<not> TryRLock s then Inl ErrBlocked
      else if db_closed s then Inl PanicClosed
      else (case db_Get (db s) name of
              Inl err \<Rightarrow> Inl err
            | Inr data \<Rightarrow> Inr \<lparr>Name = name, Tags = strings_Split (CHR 0x1F) data\<rparr>))"

definition GetMeta :: "'f extern \<Rightarrow> Store \<Rightarrow> error + RepoMeta" where
  "GetMeta ext s =
     (if \<not> TryRLock s then Inl ErrBlocked
      else if db_closed s then Inl PanicClosed
      else (case db_Get (db s) metaKey of
              Inl err \<Rightarrow> Inl err
            | Inr data \<Rightarrow>
                (case json_Unmarshal ext data of
                   Inl msg \<Rightarrow> Inl (EncodingError msg)
                 | Inr meta \<Rightarrow> Inr meta)))"

text \<open>The loop of \<^verbatim>\<open>GetPkgNamesByPrefix\<close> over the iterator, with the counter
  \<open>i\<close> and the limit \<open>n\<close> as Go \<^verbatim>\<open>int\<close>s.\<close>

fun GetPkgNamesByPrefix_loop :: "int \<Rightarrow> int \<Rightarrow> kv \<Rightarrow> string list \<Rightarrow> string list" where
  "GetPkgNamesByPrefix_loop n i [] out = out"
| "GetPkgNamesByPrefix_loop n i ((key, val) # rest) out =
     (if i = n - 1 then out
      else GetPkgNamesByPrefix_loop n (i + 1) rest (out @ [key]))"

text \<open>
  \<^verbatim>\<open>GetPkgNamesByPrefix\<close>.  \<^verbatim>\<open>make([]string, 0, n)\<close> panics for a negative
  \<open>n\<close>; \<^verbatim>\<open>prefix[:len(prefix)-1]\<close> and \<^verbatim>\<open>prefix[len(prefix)-1]\<close> are out of
  range for the empty prefix.  The upper bound adds one to the last byte, modulo 256.
\<close>

definition GetPkgNamesByPrefix :: "Store \<Rightarrow> string \<Rightarrow> int \<Rightarrow> error + string list" where
  "GetPkgNamesByPrefix s pfx n =
     (if \<not> TryRLock s then Inl ErrBlocked
      else if n < 0 then Inl PanicMakeSlice
      else if length pfx = 0 then Inl PanicOutOfRange
      else if db_closed s then Inl PanicClosed
      else
        (let lower = pfx;
             upper = butlast pfx @ [char_of (of_char (last pfx) + (1::nat))];
             iter = db_NewIter (db s) lower upper
         in Inr (GetPkgNamesByPrefix_loop n 0 iter [])))"

subsection \<open>Tag search\<close>

definition overlap :: "string list \<Rightarrow> string list \<Rightarrow> string list \<times> float32" where
  "overlap stags ptags =
     (let overlapTags = filter (\<lambda>stag. stag \<in> set ptags) stags
      in (overlapTags, float32_div_len (length overlapTags) (length stags)))"

definition startChars :: "char list" where
  "startChars = ''0123456789ABCDEFGHIJKLMNOPQRSTUVWXYZabcdefghijklmnopqrstuvwxyz''"

record IterOptions =
  LowerBound :: string
  UpperBound :: string

definition iterOpts :: "IterOptions list" where
  "iterOpts =
     map (\<lambda>c. \<lparr>LowerBound = [c], UpperBound = [char_of (of_char c + (1::nat))]\<rparr>) startChars"

text \<open>
  \<^verbatim>\<open>tagRegex.MatchString\<close> for the pattern \<^verbatim>\<open>\w+=.+\<close>.  Go's
  \<^verbatim>\<open>MatchString\<close> is not anchored: it looks for a match anywhere in the string.
  \<^verbatim>\<open>\w\<close> is \<^verbatim>\<open>[0-9A-Za-z_]\<close> and \<^verbatim>\<open>.\<close> is any character but a
  newline, so a match exists exactly where a word character is followed by \<open>=\<close> and
  by a character that is not a newline.
\<close>

definition is_word :: "char \<Rightarrow> bool" where
  "is_word c =
     ((CHR ''0'' \<le> c \<and> c \<le> CHR ''9'') \<or> (CHR ''A'' \<le> c \<and> c \<le> CHR ''Z'')
      \<or> c = CHR ''_'' \<or> (CHR ''a'' \<le> c \<and> c \<le> CHR ''z''))"

fun tagRegex_MatchString :: "string \<Rightarrow> bool" where
  "tagRegex_MatchString (a # b # c # rest) =
     ((is_word a \<and> b = CHR ''='' \<and> c \<noteq> CHR 0x0A) \<or> tagRegex_MatchString (b # c # rest))"
| "tagRegex_MatchString _ = False"

text \<open>The pattern in the words of the specification: somewhere in the tag there are one
  or more word characters, then \<open>=\<close>, then one or more characters other than newline.\<close>

definition matches_tag_pattern :: "string \<Rightarrow> bool" where
  "matches_tag_pattern tag =
     (\<exists>pre w v post. tag = pre @ w @ ''='' @ v @ post
        \<and> w \<noteq> [] \<and> list_all is_word w \<and> v \<noteq> [] \<and> list_all (\<lambda>c. c \<noteq> CHR 0x0A) v)"

record TagResult =
  Confidence :: float32
  Overlap :: "string list"
  Package :: Package

text \<open>The loop over the iterator of one range: a package whose confidence is zero is
  skipped.\<close>

fun Search_scan :: "string list \<Rightarrow> kv \<Rightarrow> TagResult list" where
  "Search_scan tags [] = []"
| "Search_scan tags ((key, val) # rest) =
     (let ptags = strings_Split (CHR 0x1F) val;
          (overlapTags, conf) = overlap tags ptags
      in if conf = F32 0 then Search_scan tags rest
         else \<lparr>Confidence = conf, Overlap = overlapTags,
               Package = \<lparr>Name = key, Tags = ptags\<rparr>\<rparr> # Search_scan tags rest)"

text \<open>One round of a worker: the bloom filter of the range's first byte gates the
  scan; a filter that does not exist skips the range, any other error ends the search.\<close>

definition Search_chunk ::
  "'f extern \<Rightarrow> Store \<Rightarrow> string list \<Rightarrow> IterOptions \<Rightarrow> error + TagResult list" where
  "Search_chunk ext s tags opt =
     (case (case GetFilter ext s (hd (LowerBound opt)) of
              Inr flt \<Rightarrow> Inr (list_ex (Lookup ext flt) tags)
            | Inl err \<Rightarrow> (if err \<noteq> ErrNotFound then Inl err else Inr False)) of
        Inl err \<Rightarrow> Inl err
      | Inr found \<Rightarrow>
          (if \<not> found then Inr []
           else if db_closed s then Inl PanicClosed
           else Inr (Search_scan tags (db_NewIter (db s) (LowerBound opt) (UpperBound opt)))))"

text \<open>
  The workers share the queue of ranges and the result list.  The model takes the
  ranges in queue order; the result list is sorted before it is returned, so the order in
  which the workers append does not show.
\<close>

fun Search_workers ::
  "'f extern \<Rightarrow> Store \<Rightarrow> string list \<Rightarrow> IterOptions list \<Rightarrow> TagResult list
     \<Rightarrow> error + TagResult list" where
  "Search_workers ext s tags [] results = Inr results"
| "Search_workers ext s tags (opt # opts) results =
     (case Search_chunk ext s tags opt of
        Inl err \<Rightarrow> Inl err
      | Inr out \<Rightarrow> Search_workers ext s tags opts (results @ out))"

text \<open>The comparison function of \<^verbatim>\<open>SortResults\<close>, and the sort as an insertion
  sort.\<close>

definition strings_Compare :: "string \<Rightarrow> string \<Rightarrow> int" where
  "strings_Compare a b = (if a < b then - 1 else if a = b then 0 else 1)"

definition SortResults_cmp :: "TagResult \<Rightarrow> TagResult \<Rightarrow> int" where
  "SortResults_cmp a b =
     (if float32_less (Confidence a) (Confidence b) then 1
      else if float32_less (Confidence b) (Confidence a) then - 1
      else strings_Compare (Name (Package a)) (Name (Package b)))"

fun SortResults_insert :: "TagResult \<Rightarrow> TagResult list \<Rightarrow> TagResult list" where
  "SortResults_insert x [] = [x]"
| "SortResults_insert x (y # ys) =
     (if SortResults_cmp x y \<le> 0 then x # y # ys else y # SortResults_insert x ys)"

definition SortResults :: "TagResult list \<Rightarrow> TagResult list" where
  "SortResults results = foldr SortResults_insert results []"

definition Search :: "'f extern \<Rightarrow> Store \<Rightarrow> string list \<Rightarrow> error + TagResult list" where
  "Search ext s tags =
     (case find (\<lambda>tag. \<not> tagRegex_MatchString tag) tags of
        Some tag \<Rightarrow> Inl (ErrInvalidTag tag)
      | None \<Rightarrow>
          (if SearchThreads s \<le> 0 then Inr (SortResults [])
           else (case Search_workers ext s tags iterOpts [] of
                   Inl err \<Rightarrow> Inl err
                 | Inr results \<Rightarrow> Inr (SortResults results))))"

text \<open>
  What a caller compares two hits by: the package, the confidence and the overlap up to
  order; and what the claims about searches speak of: the name, the confidence and the
  set of overlap tags, or the package and the set of overlap tags alone.
\<close>

definition same_hit :: "TagResult \<Rightarrow> TagResult \<Rightarrow> bool" where
  "same_hit r1 r2 =
     (Package r1 = Package r2 \<and> Confidence r1 = Confidence r2
      \<and> mset (Overlap r1) = mset (Overlap r2))"

definition hit_view :: "TagResult \<Rightarrow> string \<times> float32 \<times> string set" where
  "hit_view r = (Name (Package r), Confidence r, set (Overlap r))"

definition hit_overlap :: "TagResult \<Rightarrow> Package \<times> string set" where
  "hit_overlap r = (Package r, set (Overlap r))"

section \<open>The refresh pipeline\<close>

definition batchSize :: int where
  "batchSize = 5000"

text \<open>
  The loop of \<^verbatim>\<open>Pull\<close> over the records the importer sends, on the shadow store
  \<open>s2\<close>: the state is the counter \<open>i\<close>, the map \<^verbatim>\<open>collected\<close> (an association
  list by name), the filters and the store.
\<close>

fun Pull_loop ::
  "'f extern \<Rightarrow> Record list \<Rightarrow> int \<Rightarrow> (string \<times> Record) list \<Rightarrow> 'f filters \<Rightarrow> Store
     \<Rightarrow> error + ((string \<times> Record) list \<times> 'f filters \<times> Store)" where
  "Pull_loop ext [] i collected filters s2 = Inr (collected, filters, s2)"
| "Pull_loop ext (rec # recs) i collected filters s2 =
     (case Error rec of
        Some err \<Rightarrow> Inl err
      | None \<Rightarrow>
          (let collected' =
                 (case map_of collected (Name rec) of
                    None \<Rightarrow> AList.update (Name rec) rec collected
                  | Some curRec \<Rightarrow>
                      AList.update (Name rec) (curRec\<lparr>Tags := Tags curRec @ Tags rec\<rparr>) collected)
           in if i \<ge> batchSize then
                (case WriteBatch ext s2 (map snd collected') filters of
                   (Some err, _, _) \<Rightarrow> Inl err
                 | (None, s2', filters') \<Rightarrow> Pull_loop ext recs (0 + 1) [] filters' s2')
              else Pull_loop ext recs (i + 1) collected' filters s2))"

text \<open>The metadata \<^verbatim>\<open>Pull\<close> makes of the response headers \<^verbatim>\<open>ETag\<close> and
  \<^verbatim>\<open>Last-Modified\<close>; the zero time is \<open>0\<close>.\<close>

definition Pull_meta :: "'f extern \<Rightarrow> string \<Rightarrow> string \<Rightarrow> error + RepoMeta" where
  "Pull_meta ext etag lastMod =
     (if lastMod \<noteq> [] then
        (case time_Parse ext lastMod of
           Inl msg \<Rightarrow> Inl (TimeParseError msg)
         | Inr t \<Rightarrow> Inr \<lparr>ETag = etag, LastModified = t\<rparr>)
      else Inr \<lparr>ETag = etag, LastModified = 0\<rparr>)"

text \<open>
  \<^verbatim>\<open>Pull\<close> from the record loop to the metadata, on the store \<open>s2\<close> opened on the
  fresh directory, with the two response headers.  What comes before (the download)
  and after (\<^verbatim>\<open>Replace\<close>, below) is not part of this function.
\<close>

definition Pull_records ::
  "'f extern \<Rightarrow> Store \<Rightarrow> Record list \<Rightarrow> string \<Rightarrow> string \<Rightarrow> error + Store" where
  "Pull_records ext s2 recs etag lastMod =
     (case Pull_loop ext recs 0 [] [] s2 of
        Inl err \<Rightarrow> Inl err
      | Inr (collected, filters, s2a) \<Rightarrow>
          (case (if length collected \<noteq> 0 then WriteBatch ext s2a (map snd collected) filters
                 else (None, s2a, filters)) of
             (Some err, _, _) \<Rightarrow> Inl err
           | (None, s2b, filters') \<Rightarrow>
               (case WriteFilters ext s2b filters' of
                  (Some err, _) \<Rightarrow> Inl err
                | (None, s2c) \<Rightarrow>
                    (case Pull_meta ext etag lastMod of
                       Inl err \<Rightarrow> Inl err
                     | Inr meta \<Rightarrow>
                         (case WriteMeta ext s2c meta of
                            (Some err, _) \<Rightarrow> Inl err
                          | (None, s2d) \<Rightarrow> Inr s2d)))))"

text \<open>\<^verbatim>\<open>store.Open\<close> on a directory that \<^verbatim>\<open>os.MkdirTemp\<close> has just made.\<close>

definition Open_fresh :: "string \<Rightarrow> Store" where
  "Open_fresh path =
     \<lparr>Path = path, db = [], db_closed = False, blocked = False, SearchThreads = 4\<rparr>"

text \<open>
  What the code relies on from the libraries: a key that was added to a filter is found
  in it, also after further keys are added, and decoding an encoded filter gives the
  filter back.
\<close>

definition bloom_laws :: "'f extern \<Rightarrow> bool" where
  "bloom_laws ext =
     ((\<forall>f key. Lookup ext (Add ext f key) key)
      \<and> (\<forall>f key key'. Lookup ext f key \<longrightarrow> Lookup ext (Add ext f key') key)
      \<and> (\<forall>f data. GobEncode ext f = Inr data \<longrightarrow> GobDecode ext data = Inr f))"

text \<open>No tag of the list contains the separator byte \<open>0x1F\<close>.\<close>

definition sep_free :: "string list \<Rightarrow> bool" where
  "sep_free tags = (\<forall>tag\<in>set tags. CHR 0x1F \<notin> set tag)"

text \<open>
  The invariant of a refresh.  The filter of a first byte covers a list of tags when it
  exists and reports each of them; a map of filters has grown into another when every
  filter is still there and reports what it reported before; the filters cover the
  values of a package name (those stored in the database, or written to a batch) when
  the name is non-empty and the filter of its first byte covers the tags of each
  value.
\<close>

definition filter_covers :: "'f extern \<Rightarrow> 'f filters \<Rightarrow> char \<Rightarrow> string list \<Rightarrow> bool" where
  "filter_covers ext filters c tags =
     (\<exists>f. map_of filters c = Some f \<and> (\<forall>tag\<in>set tags. Lookup ext f tag))"

definition filters_grow :: "'f extern \<Rightarrow> 'f filters \<Rightarrow> 'f filters \<Rightarrow> bool" where
  "filters_grow ext filters filters' =
     (\<forall>c f. map_of filters c = Some f \<longrightarrow>
        (\<exists>f'. map_of filters' c = Some f' \<and> (\<forall>key. Lookup ext f key \<longrightarrow> Lookup ext f' key)))"

text \<open>The tags \<^verbatim>\<open>WriteBatch\<close> writes for a record: its own, merged with those already
  stored under its name.\<close>

definition merged_tags :: "kv \<Rightarrow> Record \<Rightarrow> string list" where
  "merged_tags d item =
     (case db_Get d (Name item) of
        Inl _ \<Rightarrow> remdups_adj (sort (Tags item))
      | Inr curVal \<Rightarrow> remdups_adj (sort (strings_Split (CHR 0x1F) curVal @ Tags item)))"

definition key_covered :: "'f extern \<Rightarrow> string \<Rightarrow> string set \<Rightarrow> 'f filters \<Rightarrow> bool" where
  "key_covered ext name vals filters =
     (\<forall>v\<in>vals. name \<noteq> [] \<and> filter_covers ext filters (hd name) (strings_Split (CHR 0x1F) v))"

text \<open>The keys the shard keeps for itself: the metadata key and the two-byte filter
  keys \<open>{0x02, c}\<close>.\<close>

definition reserved_key :: "string \<Rightarrow> bool" where
  "reserved_key k = (k = metaKey \<or> (length k = 2 \<and> hd k = CHR 0x02))"

section \<open>Replacing a shard\<close>








section \<open>A small bloom filter for the worked examples\<close>

text \<open>
  A bloom filter with one hash function, the last byte of the key: the filter state is
  the list of the bytes seen.  The gob encoding of such a state is the state itself, and
  the JSON encoding of the metadata is cut down to the entity tag; the time parser is a
  stand-in.  It has false
  positives (any two keys that end in the same byte) and no false negatives.
\<close>

definition last_byte :: "string \<Rightarrow> char" where
  "last_byte key = (if key = [] then CHR 0x00 else last key)"

definition byte_bloom :: "string extern" where
  "byte_bloom =
     \<lparr>NewFilter = [],
      Add = (\<lambda>f key. last_byte key # f),
      Lookup = (\<lambda>f key. last_byte key \<in> set f),
      GobEncode = Inr,
      GobDecode = Inr,
      json_Marshal = (\<lambda>m. Inr (ETag m)),
      json_Unmarshal = (\<lambda>data. Inr \<lparr>ETag = data, LastModified = 0\<rparr>),
      time_Parse = (\<lambda>text. Inr (int (length text)))\<rparr>"

text \<open>
  Three records an importer may send, and the shard a refresh makes of them with the
  filter above: three packages, the filters of the first bytes \<open>a\<close> and \<open>b\<close>, and
  the metadata.
\<close>

definition records_abc :: "Record list" where
  "records_abc =
     [\<lparr>Name = ''a'', Tags = [''bin=a''], Error = None\<rparr>,
      \<lparr>Name = ''ab'', Tags = [''bin=ab''], Error = None\<rparr>,
      \<lparr>Name = ''b'', Tags = [''bin=b''], Error = None\<rparr>]"

definition shard_abc :: Store where
  "shard_abc =
     \<lparr>Path = ''/data/r/db'',
      db = [(''a'', ''bin=a''), (''ab'', ''bin=ab''), (''b'', ''bin=b''),
            ([CHR 0x02, CHR ''a''], ''ba''),
            ([CHR 0x02, CHR ''b''], ''b''),
            (CHR 0x02 # ''META'', ''etag-1'')],
      db_closed = False, blocked = False, SearchThreads = 4\<rparr>"




text \<open>
  A record whose one tag contains the separator byte, and the shard a refresh makes of
  it: the value of the package reads back as two tags.
\<close>

definition records_sep :: "Record list" where
  "records_sep = [\<lparr>Name = ''p'', Tags = [''k=a'' @ [CHR 0x1F] @ ''zz''], Error = None\<rparr>]"

definition shard_sep :: Store where
  "shard_sep =
     \<lparr>Path = ''/data/r/distrohop-pull.2'',
      db = [(''p'', ''k=a'' @ [CHR 0x1F] @ ''zz''),
            ([CHR 0x02, CHR ''p''], ''z''),
            (CHR 0x02 # ''META'', ''etag-3'')],
      db_closed = False, blocked = False, SearchThreads = 4\<rparr>"

section \<open>Tag extraction: results\<close>

text \<open>Whatever the last character, a basename with \<open>.so\<close> and a valid soversion gets all
  three tags: the guard on \<^verbatim>\<open>lastChar\<close> holds for every byte.\<close>

lemma Generate_lib_so:
  assumes "strings_Cut name ''.so'' = (libName, soversion, True)" and "soversionIsValid soversion"
  shows "Generate_lib name (tags, added)
           = (tags @ [''lib='' @ name, ''lib='' @ libName @ ''.so'',
                      ''lib='' @ strings_TrimPrefix libName ''lib''], True)"
proof -
  have "CHR ''0'' \<le> CHR ''9''" by simp
  then have "last name \<ge> CHR ''0'' \<or> last name \<le> CHR ''9''"
    by (metis linear order.trans)
  with assms show ?thesis by (simp add: Generate_lib_def Let_def)
qed

text \<open>
  C5.  The claim: for a basename with \<open>.so\<close> and a valid soversion in a lib bucket, all
  three lib tags are emitted only when the basename ends in a digit, and only
  \<open>lib=<basename>\<close> otherwise.  The code's guard is
  \<^verbatim>\<open>lastChar >= '0' || lastChar <= '9'\<close>, which every byte satisfies, so the
  three tags are emitted for \<^verbatim>\<open>/usr/lib/libfoo.so\<close> too, whose basename ends
  in \<open>o\<close>.
\<close>

theorem Generate_lib_nondigit_emits_three:
  "Generate ''/usr/lib/libfoo.so'' = Inr [''lib=libfoo.so'', ''lib=libfoo.so'', ''lib=foo'']"
  by (simp add: Generate_def Generate_case_def Generate_lib_def strings_Cut_def
      soversionIsValid_def strings_TrimPrefix_def Let_def)

section \<open>The shard store: locking and prefix scans\<close>

text \<open>
  C4.  While a \<^verbatim>\<open>Replace\<close> holds the write lock, each of the operations
  \<^verbatim>\<open>WriteBatch\<close>, \<^verbatim>\<open>WriteFilters\<close>, \<^verbatim>\<open>GetFilter\<close>, \<^verbatim>\<open>GetPkg\<close>,
  \<^verbatim>\<open>GetPkgNamesByPrefix\<close>, \<^verbatim>\<open>WriteMeta\<close>, \<^verbatim>\<open>GetMeta\<close> and
  \<^verbatim>\<open>Close\<close> returns \<^verbatim>\<open>ErrBlocked\<close> at once: the store and the caller's
  filters come back unchanged, and the answer does not depend on what the database
  holds, on the arguments or on the encoders.
\<close>

theorem blocked_operations_return_ErrBlocked:
  assumes "blocked s"
  shows "WriteBatch ext s batch filters = (Some ErrBlocked, s, filters)
       \<and> WriteFilters ext s filters = (Some ErrBlocked, s)
       \<and> GetFilter ext s firstChar = Inl ErrBlocked
       \<and> GetPkg s name = Inl ErrBlocked
       \<and> GetPkgNamesByPrefix s pfx n = Inl ErrBlocked
       \<and> WriteMeta ext s meta = (Some ErrBlocked, s)
       \<and> GetMeta ext s = Inl ErrBlocked
       \<and> Close s = (Some ErrBlocked, s)"
  using assms
  by (simp add: WriteBatch_def WriteFilters_def GetFilter_def GetPkg_def
      GetPkgNamesByPrefix_def WriteMeta_def GetMeta_def Close_def TryRLock_def)

theorem blocked_operations_witness:
  "blocked (shard_abc\<lparr>blocked := True\<rparr>)
   \<and> WriteBatch byte_bloom (shard_abc\<lparr>blocked := True\<rparr>)
        [\<lparr>Name = ''c'', Tags = [''bin=c''], Error = None\<rparr>] []
      = (Some ErrBlocked, shard_abc\<lparr>blocked := True\<rparr>, [])
   \<and> GetPkg (shard_abc\<lparr>blocked := True\<rparr>) ''a'' = Inl ErrBlocked
   \<and> GetPkg shard_abc ''a'' = Inr \<lparr>Name = ''a'', Tags = [''bin=a'']\<rparr>"
  using blocked_operations_return_ErrBlocked
    [of "shard_abc\<lparr>blocked := True\<rparr>" byte_bloom
        "[\<lparr>Name = ''c'', Tags = [''bin=c''], Error = None\<rparr>]" "[]" "CHR ''a''" "''a''" "''a''" 1
        "\<lparr>ETag = ''e'', LastModified = 0\<rparr>"]
  by (simp add: shard_abc_def GetPkg_def TryRLock_def db_Get_def)

text \<open>
  C9.  \<^verbatim>\<open>GetPkgNamesByPrefix\<close> is free of the out-of-range access for every store
  and every limit exactly when the prefix is non-empty; with the empty prefix every
  call that gets as far as building the iterator bounds (the read lock was acquired and
  \<^verbatim>\<open>make\<close> accepted the limit) panics there.
\<close>

theorem GetPkgNamesByPrefix_out_of_range:
  "((\<forall>s n. GetPkgNamesByPrefix s pfx n \<noteq> Inl PanicOutOfRange) \<longleftrightarrow> pfx \<noteq> [])
   \<and> (\<not> blocked s \<and> 0 \<le> n \<longrightarrow> GetPkgNamesByPrefix s [] n = Inl PanicOutOfRange)"
proof (intro conjI iffI impI)
  assume "pfx \<noteq> []"
  then show "\<forall>s n. GetPkgNamesByPrefix s pfx n \<noteq> Inl PanicOutOfRange"
    by (simp add: GetPkgNamesByPrefix_def TryRLock_def Let_def)
next
  assume a: "\<forall>s n. GetPkgNamesByPrefix s pfx n \<noteq> Inl PanicOutOfRange"
  show "pfx \<noteq> []"
  proof
    assume "pfx = []"
    then have "GetPkgNamesByPrefix (Open_fresh []) pfx 0 = Inl PanicOutOfRange"
      by (simp add: GetPkgNamesByPrefix_def TryRLock_def Open_fresh_def)
    with a show False by blast
  qed
next
  assume "\<not> blocked s \<and> 0 \<le> n"
  then show "GetPkgNamesByPrefix s [] n = Inl PanicOutOfRange"
    by (simp add: GetPkgNamesByPrefix_def TryRLock_def)
qed

theorem GetPkgNamesByPrefix_out_of_range_witness:
  "GetPkgNamesByPrefix shard_abc ''a'' 10 = Inr [''a'', ''ab'']
   \<and> GetPkgNamesByPrefix shard_abc [] 10 = Inl PanicOutOfRange"
  using GetPkgNamesByPrefix_out_of_range [of "''a''" shard_abc 10]
  by (simp add: shard_abc_def GetPkgNamesByPrefix_def TryRLock_def Let_def db_NewIter_def
      List.map_filter_def less_char_def)

text \<open>What the loop returns for a positive limit: the first \<open>n - 1\<close> names of the range.\<close>

lemma GetPkgNamesByPrefix_loop_take:
  "0 \<le> i \<Longrightarrow> i < n \<Longrightarrow>
   GetPkgNamesByPrefix_loop n i it out = out @ take (nat (n - 1 - i)) (map fst it)"
proof (induction it arbitrary: i out)
  case Nil
  then show ?case by simp
next
  case (Cons kv it)
  obtain key val where kv: "kv = (key, val)" by (cases kv)
  show ?case
  proof (cases "i = n - 1")
    case True
    with kv show ?thesis by simp
  next
    case False
    with Cons.prems have "0 \<le> i + 1" "i + 1 < n" by simp_all
    from Cons.IH [OF this, of "out @ [key]"] False kv Cons.prems show ?thesis
      by (simp add: take_Cons' nat_diff_distrib') 
  qed
qed

lemma GetPkgNamesByPrefix_limit:
  assumes "\<not> blocked s" and "\<not> db_closed s" and "pfx \<noteq> []" and "0 < n"
  shows "GetPkgNamesByPrefix s pfx n
           = Inr (take (nat (n - 1))
                   (map fst (db_NewIter (db s) pfx
                      (butlast pfx @ [char_of (of_char (last pfx) + (1::nat))]))))"
  using assms GetPkgNamesByPrefix_loop_take [of 0 n _ "[]"]
  by (simp add: GetPkgNamesByPrefix_def TryRLock_def Let_def)

text \<open>
  C6.  The claim: with at least \<open>n\<close> names in the range, exactly \<open>n\<close> names are
  returned.  The loop leaves when \<^verbatim>\<open>i == n-1\<close>, before it appends, so it returns
  at most \<open>n - 1\<close> names: the range \<open>[a, b)\<close> of the example shard holds the two
  names \<open>a\<close> and \<open>ab\<close>, and the limit 2 gives one name, the limit 1 none.
\<close>

theorem GetPkgNamesByPrefix_returns_one_less:
  "db_NewIter (db shard_abc) ''a'' ''b'' = [(''a'', ''bin=a''), (''ab'', ''bin=ab'')]
   \<and> GetPkgNamesByPrefix shard_abc ''a'' 2 = Inr [''a'']
   \<and> GetPkgNamesByPrefix shard_abc ''a'' 1 = Inr []"
  by (simp add: shard_abc_def GetPkgNamesByPrefix_def TryRLock_def Let_def db_NewIter_def
      List.map_filter_def less_char_def)

section \<open>Tag search: validation\<close>

text \<open>The matcher finds exactly the tags that contain a match of the pattern.\<close>

lemma tagRegex_MatchString_Cons:
  "2 \<le> length l \<Longrightarrow>
   tagRegex_MatchString (x # l)
     = ((is_word x \<and> hd l = CHR ''='' \<and> l ! 1 \<noteq> CHR 0x0A) \<or> tagRegex_MatchString l)"
proof (cases l)
  case Nil
  assume "2 \<le> length l"
  with Nil show ?thesis by simp
next
  case (Cons b l')
  assume len: "2 \<le> length l"
  show ?thesis
  proof (cases l')
    case Nil
    with Cons len show ?thesis by simp
  next
    case (Cons c rest)
    with \<open>l = b # l'\<close> show ?thesis by simp
  qed
qed

lemma tagRegex_MatchString_core:
  "is_word a \<Longrightarrow> c \<noteq> CHR 0x0A \<Longrightarrow> tagRegex_MatchString (pre @ a # CHR ''='' # c # post)"
proof (induction pre)
  case Nil
  then show ?case by simp
next
  case (Cons x pre)
  have "2 \<le> length (pre @ a # CHR ''='' # c # post)" by simp
  from tagRegex_MatchString_Cons [OF this, of x] Cons show ?case by simp
qed

lemma tagRegex_MatchString_sound:
  "tagRegex_MatchString tag \<Longrightarrow> matches_tag_pattern tag"
proof (induction tag rule: tagRegex_MatchString.induct)
  case (1 a b c rest)
  show ?case
  proof (cases "is_word a \<and> b = CHR ''='' \<and> c \<noteq> CHR 0x0A")
    case True
    then have "a # b # c # rest = [] @ [a] @ ''='' @ [c] @ rest
        \<and> [a] \<noteq> [] \<and> list_all is_word [a] \<and> [c] \<noteq> [] \<and> list_all (\<lambda>c. c \<noteq> CHR 0x0A) [c]"
      by simp
    then show ?thesis unfolding matches_tag_pattern_def by blast
  next
    case False
    with "1.prems" have "tagRegex_MatchString (b # c # rest)" by simp
    with False "1.IH" have "matches_tag_pattern (b # c # rest)" by simp
    then obtain pre w v post where
      eq: "b # c # rest = pre @ w @ ''='' @ v @ post" and
      rest: "w \<noteq> []" "list_all is_word w" "v \<noteq> []" "list_all (\<lambda>c. c \<noteq> CHR 0x0A) v"
      unfolding matches_tag_pattern_def by blast
    from eq have "a # b # c # rest = (a # pre) @ w @ ''='' @ v @ post" by simp
    with rest show ?thesis unfolding matches_tag_pattern_def by blast
  qed
qed (simp_all)

lemma tagRegex_MatchString_complete:
  assumes "matches_tag_pattern tag"
  shows "tagRegex_MatchString tag"
proof -
  from assms obtain pre w v post where
    eq: "tag = pre @ w @ ''='' @ v @ post" and
    w: "w \<noteq> []" "list_all is_word w" and v: "v \<noteq> []" "list_all (\<lambda>c. c \<noteq> CHR 0x0A) v"
    unfolding matches_tag_pattern_def by blast
  from w have wl: "w = butlast w @ [last w]" "is_word (last w)"
    by (simp_all add: list_all_iff)
  from v have vl: "v = hd v # tl v" "hd v \<noteq> CHR 0x0A"
    by (simp_all add: list_all_iff)
  have "tag = (pre @ butlast w) @ last w # CHR ''='' # hd v # (tl v @ post)"
    using eq wl(1) vl(1) by (metis append.assoc append_Cons append_Nil)
  with tagRegex_MatchString_core [OF wl(2) vl(2), of "pre @ butlast w" "tl v @ post"]
  show ?thesis by simp
qed

lemma tagRegex_MatchString_iff: "tagRegex_MatchString tag \<longleftrightarrow> matches_tag_pattern tag"
  using tagRegex_MatchString_sound tagRegex_MatchString_complete by blast

lemma GetFilter_error:
  "GetFilter ext s c = Inl e \<Longrightarrow>
   e = ErrBlocked \<or> e = PanicClosed \<or> e = ErrNotFound \<or> (\<exists>m. e = EncodingError m)"
  by (auto simp: GetFilter_def db_Get_def split: if_splits option.splits sum.splits)

lemma Search_chunk_error:
  "Search_chunk ext s tags opt = Inl e \<Longrightarrow>
   e = ErrBlocked \<or> e = PanicClosed \<or> (\<exists>m. e = EncodingError m)"
  by (auto simp: Search_chunk_def split: if_splits sum.splits dest: GetFilter_error)

lemma Search_workers_error:
  "Search_workers ext s tags opts results = Inl e \<Longrightarrow>
   e = ErrBlocked \<or> e = PanicClosed \<or> (\<exists>m. e = EncodingError m)"
  by (induction opts arbitrary: results) (auto split: sum.splits dest: Search_chunk_error)

lemma Search_invalid:
  "find (\<lambda>tag. \<not> tagRegex_MatchString tag) tags = Some tag \<Longrightarrow>
   Search ext s tags = Inl (ErrInvalidTag tag)"
  by (simp add: Search_def)

lemma Search_valid:
  "find (\<lambda>tag. \<not> tagRegex_MatchString tag) tags = None \<Longrightarrow>
   Search ext s tags \<noteq> Inl (ErrInvalidTag tag)"
  by (auto simp: Search_def split: sum.splits dest: Search_workers_error)

text \<open>
  C8.  \<^verbatim>\<open>Search\<close> returns \<^verbatim>\<open>ErrInvalidTag\<close> if and only if some tag does not
  match \<^verbatim>\<open>\w+=.+\<close> (in the sense of \<^verbatim>\<open>MatchString\<close>: the tag contains a
  match).  Then the result is the same for every store and every filter library, blocked
  or not: nothing of the database was read.  \<^verbatim>\<open>Search(["justfoo"])\<close> fails with
  \<^verbatim>\<open>ErrInvalidTag\<close>.
\<close>

theorem Search_InvalidTag_iff:
  "((\<exists>tag. Search ext s tags = Inl (ErrInvalidTag tag))
      \<longleftrightarrow> (\<exists>tag\<in>set tags. \<not> matches_tag_pattern tag))
   \<and> ((\<exists>tag\<in>set tags. \<not> matches_tag_pattern tag) \<longrightarrow> Search ext s tags = Search ext' s' tags)
   \<and> Search ext s [''justfoo''] = Inl (ErrInvalidTag ''justfoo'')"
proof (intro conjI impI)
  show "(\<exists>tag. Search ext s tags = Inl (ErrInvalidTag tag))
      \<longleftrightarrow> (\<exists>tag\<in>set tags. \<not> matches_tag_pattern tag)"
  proof (cases "find (\<lambda>tag. \<not> tagRegex_MatchString tag) tags")
    case None
    then have "\<forall>tag\<in>set tags. matches_tag_pattern tag"
      by (auto simp: find_None_iff tagRegex_MatchString_iff)
    with Search_valid [OF None] show ?thesis by blast
  next
    case (Some t)
    then have "t \<in> set tags" "\<not> matches_tag_pattern t"
      by (auto simp: find_Some_iff tagRegex_MatchString_iff)
    with Search_invalid [OF Some] show ?thesis by blast
  qed
next
  assume "\<exists>tag\<in>set tags. \<not> matches_tag_pattern tag"
  then obtain t where "find (\<lambda>tag. \<not> tagRegex_MatchString tag) tags = Some t"
    by (cases "find (\<lambda>tag. \<not> tagRegex_MatchString tag) tags")
       (auto simp: find_None_iff tagRegex_MatchString_iff)
  then show "Search ext s tags = Search ext' s' tags"
    by (simp add: Search_invalid)
next
  show "Search ext s [''justfoo''] = Inl (ErrInvalidTag ''justfoo'')"
    by (simp add: Search_def)
qed

theorem Search_InvalidTag_witness:
  "(\<exists>tag\<in>set [''bin=foo'', ''justfoo'']. \<not> matches_tag_pattern tag)
   \<and> Search byte_bloom shard_abc [''bin=foo'', ''justfoo'']
       = Search byte_bloom (shard_abc\<lparr>blocked := True\<rparr>) [''bin=foo'', ''justfoo'']
   \<and> (\<exists>tag. Search byte_bloom shard_abc [''bin=foo'', ''justfoo''] = Inl (ErrInvalidTag tag))"
proof -
  have "\<not> tagRegex_MatchString ''justfoo''" by simp
  then have h: "\<exists>tag\<in>set [''bin=foo'', ''justfoo'']. \<not> matches_tag_pattern tag"
    by (simp add: tagRegex_MatchString_iff)
  from Search_InvalidTag_iff
    [of byte_bloom shard_abc "[''bin=foo'', ''justfoo'']" byte_bloom "shard_abc\<lparr>blocked := True\<rparr>"] h
  show ?thesis by blast
qed

section \<open>Tag search: the empty tag list\<close>

lemma set_SortResults_insert: "set (SortResults_insert x ys) = insert x (set ys)"
  by (induction ys) auto

lemma set_SortResults: "set (SortResults results) = set results"
  by (induction results) (simp_all add: SortResults_def set_SortResults_insert)

lemma iterOpts_LowerBound:
  "opt \<in> set iterOpts \<Longrightarrow> hd (LowerBound opt) \<in> set startChars"
  by (auto simp: iterOpts_def)

lemma Search_chunk_no_tags:
  assumes "\<And>e. GetFilter ext s (hd (LowerBound opt)) = Inl e \<Longrightarrow> e = ErrNotFound"
  shows "Search_chunk ext s [] opt = Inr []"
  using assms by (cases "GetFilter ext s (hd (LowerBound opt))") (simp_all add: Search_chunk_def)

lemma Search_workers_no_tags:
  assumes "\<forall>opt\<in>set opts. \<forall>e. GetFilter ext s (hd (LowerBound opt)) = Inl e \<longrightarrow> e = ErrNotFound"
  shows "Search_workers ext s [] opts results = Inr results"
  using assms
proof (induction opts arbitrary: results)
  case Nil
  then show ?case by simp
next
  case (Cons opt opts)
  then have "Search_chunk ext s [] opt = Inr []"
    by (intro Search_chunk_no_tags) simp
  with Cons show ?case by simp
qed

lemma Search_workers_blocked:
  "blocked s \<Longrightarrow> opts \<noteq> [] \<Longrightarrow> Search_workers ext s tags opts results = Inl ErrBlocked"
  by (cases opts) (simp_all add: Search_chunk_def GetFilter_def TryRLock_def)

text \<open>
  C10, as amended.  \<^verbatim>\<open>Search\<close> of the empty tag list returns the empty result
  and no error in every state in which no worker runs or the load of each of the 62
  filters succeeds or reports that the filter does not exist: with no tag to test,
  \<^verbatim>\<open>found\<close> stays false and every range is skipped.  In a state blocked by a
  \<^verbatim>\<open>Replace\<close>, with at least one worker, the first \<^verbatim>\<open>GetFilter\<close> fails and
  the search returns \<^verbatim>\<open>ErrBlocked\<close>.
\<close>

theorem Search_no_tags:
  "(SearchThreads s \<le> 0 \<or> (\<forall>c\<in>set startChars. \<forall>e. GetFilter ext s c = Inl e \<longrightarrow> e = ErrNotFound)
      \<longrightarrow> Search ext s [] = Inr [])
   \<and> (blocked s \<and> 0 < SearchThreads s \<longrightarrow> Search ext s [] = Inl ErrBlocked)"
proof (intro conjI impI)
  assume h: "SearchThreads s \<le> 0 \<or> (\<forall>c\<in>set startChars. \<forall>e. GetFilter ext s c = Inl e \<longrightarrow> e = ErrNotFound)"
  show "Search ext s [] = Inr []"
  proof (cases "SearchThreads s \<le> 0")
    case True
    then show ?thesis by (simp add: Search_def SortResults_def)
  next
    case False
    with h have "\<forall>opt\<in>set iterOpts. \<forall>e. GetFilter ext s (hd (LowerBound opt)) = Inl e \<longrightarrow> e = ErrNotFound"
      using iterOpts_LowerBound by blast
    then have "Search_workers ext s [] iterOpts [] = Inr []"
      by (rule Search_workers_no_tags)
    with False show ?thesis by (simp add: Search_def SortResults_def)
  qed
next
  assume "blocked s \<and> 0 < SearchThreads s"
  moreover have "iterOpts \<noteq> []" by (simp add: iterOpts_def startChars_def)
  ultimately show "Search ext s [] = Inl ErrBlocked"
    by (simp add: Search_def Search_workers_blocked)
qed

lemma GetFilter_abc:
  "c \<in> set startChars \<Longrightarrow> GetFilter byte_bloom shard_abc c = Inl e \<Longrightarrow> e = ErrNotFound"
  by (auto simp: GetFilter_def TryRLock_def shard_abc_def db_Get_def byte_bloom_def
      split: if_splits)

theorem Search_no_tags_witness:
  "\<not> blocked shard_abc \<and> Search byte_bloom shard_abc [] = Inr []
   \<and> blocked (shard_abc\<lparr>blocked := True\<rparr>) \<and> 0 < SearchThreads (shard_abc\<lparr>blocked := True\<rparr>)
   \<and> Search byte_bloom (shard_abc\<lparr>blocked := True\<rparr>) [] = Inl ErrBlocked"
proof -
  have h1: "\<forall>c\<in>set startChars. \<forall>e. GetFilter byte_bloom shard_abc c = Inl e \<longrightarrow> e = ErrNotFound"
    using GetFilter_abc by blast
  have h2: "\<not> blocked shard_abc \<and> blocked (shard_abc\<lparr>blocked := True\<rparr>)
      \<and> 0 < SearchThreads (shard_abc\<lparr>blocked := True\<rparr>)"
    by (simp add: shard_abc_def)
  from h1 h2 Search_no_tags [of shard_abc byte_bloom]
    Search_no_tags [of "shard_abc\<lparr>blocked := True\<rparr>" byte_bloom]
  show ?thesis by blast
qed

text \<open>The claim as stated, for every shard state, fails on a blocked shard.\<close>

theorem Search_no_tags_blocked_counterexample:
  "Search byte_bloom (shard_abc\<lparr>blocked := True\<rparr>) [] = Inl ErrBlocked
   \<and> Search byte_bloom (shard_abc\<lparr>blocked := True\<rparr>) [] \<noteq> Inr []"
  by (simp add: Search_def iterOpts_def startChars_def Search_chunk_def GetFilter_def
      TryRLock_def shard_abc_def)

section \<open>Tag search: results\<close>

lemma overlap_props:
  assumes "overlap stags ptags = (ov, conf)" "stags \<noteq> []"
  shows "conf = F32 (of_nat (length ov) / of_nat (length stags))"
    and "set ov \<subseteq> set stags \<inter> set ptags"
    and "length ov \<le> length stags"
    and "conf \<noteq> F32 0 \<Longrightarrow> 0 < length ov"
  using assms by (auto simp: overlap_def float32_div_len_def Let_def)

lemma Search_scan_result:
  assumes "r \<in> set (Search_scan tags it)" "tags \<noteq> []"
  shows "Confidence r = F32 (of_nat (length (Overlap r)) / of_nat (length tags))
       \<and> set (Overlap r) \<subseteq> set tags \<inter> set (Tags (Package r))
       \<and> 0 < length (Overlap r) \<and> length (Overlap r) \<le> length tags"
  using assms
proof (induction it)
  case Nil
  then show ?case by simp
next
  case (Cons kv it)
  obtain key val where kv: "kv = (key, val)" by (cases kv)
  obtain ov conf where ov: "overlap tags (strings_Split (CHR 0x1F) val) = (ov, conf)"
    by (cases "overlap tags (strings_Split (CHR 0x1F) val)")
  show ?case
  proof (cases "conf = F32 0")
    case True
    with Cons kv ov show ?thesis by simp
  next
    case False
    with Cons.prems kv ov have
      "r = \<lparr>Confidence = conf, Overlap = ov,
            Package = \<lparr>Name = key, Tags = strings_Split (CHR 0x1F) val\<rparr>\<rparr>
       \<or> r \<in> set (Search_scan tags it)"
      by simp
    then show ?thesis
    proof
      assume "r \<in> set (Search_scan tags it)"
      with Cons show ?thesis by simp
    next
      assume r: "r = \<lparr>Confidence = conf, Overlap = ov,
            Package = \<lparr>Name = key, Tags = strings_Split (CHR 0x1F) val\<rparr>\<rparr>"
      from overlap_props [OF ov \<open>tags \<noteq> []\<close>] False r show ?thesis by simp
    qed
  qed
qed

lemma Search_chunk_result:
  assumes "Search_chunk ext s tags opt = Inr out" "r \<in> set out"
  shows "tags \<noteq> [] \<and> r \<in> set (Search_scan tags (db_NewIter (db s) (LowerBound opt) (UpperBound opt)))"
  using assms
  by (auto simp: Search_chunk_def split: sum.splits if_splits)

lemma Search_workers_result:
  assumes "Search_workers ext s tags opts results = Inr rs" "r \<in> set rs"
  shows "r \<in> set results
       \<or> (tags \<noteq> [] \<and> (\<exists>it. r \<in> set (Search_scan tags it)))"
  using assms
proof (induction opts arbitrary: results)
  case Nil
  then show ?case by simp
next
  case (Cons opt opts)
  from Cons.prems obtain out where
    out: "Search_chunk ext s tags opt = Inr out" and
    rest: "Search_workers ext s tags opts (results @ out) = Inr rs"
    by (auto split: sum.splits)
  from Cons.IH [OF rest Cons.prems(2)] Search_chunk_result [OF out]
  show ?case by auto
qed

text \<open>
  C1.  Every result \<open>r\<close> of a successful \<^verbatim>\<open>Search\<close> for the tags \<open>T\<close> has the
  confidence \<open>|r.overlap| / |T|\<close>, an overlap within both \<open>T\<close> and the tags of the
  package, and a confidence that is positive and at most 1.  (The quotient is the exact
  one; the code computes it in \<^verbatim>\<open>float32\<close>.  A search that succeeds has only valid
  tags.)
\<close>

theorem Search_confidence:
  assumes "Search ext s tags = Inr rs" and "r \<in> set rs"
  shows "Confidence r = F32 (of_nat (length (Overlap r)) / of_nat (length tags))
       \<and> set (Overlap r) \<subseteq> set tags \<inter> set (Tags (Package r))
       \<and> (0::rat) < of_nat (length (Overlap r)) / of_nat (length tags)
       \<and> of_nat (length (Overlap r)) / of_nat (length tags) \<le> (1::rat)"
proof -
  from assms obtain results where
    w: "Search_workers ext s tags iterOpts [] = Inr results" and "r \<in> set results"
    by (auto simp: Search_def set_SortResults split: option.splits if_splits sum.splits)
  from Search_workers_result [OF this] obtain it where
    ne: "tags \<noteq> []" and "r \<in> set (Search_scan tags it)"
    by auto
  from Search_scan_result [OF this(2) ne] ne show ?thesis
    by (simp add: divide_le_eq)
qed

theorem Search_confidence_witness:
  "Search byte_bloom shard_abc [''bin=a'', ''bin=zz'']
       = Inr [\<lparr>Confidence = F32 (1 / 2), Overlap = [''bin=a''],
               Package = \<lparr>Name = ''a'', Tags = [''bin=a'']\<rparr>\<rparr>]
   \<and> (0::rat) < of_nat (length [''bin=a'']) / of_nat (length [''bin=a'', ''bin=zz''])"
proof -
  have e: "Search byte_bloom shard_abc [''bin=a'', ''bin=zz'']
       = Inr [\<lparr>Confidence = F32 (1 / 2), Overlap = [''bin=a''],
               Package = \<lparr>Name = ''a'', Tags = [''bin=a'']\<rparr>\<rparr>]"
    by (simp add: Search_def iterOpts_def startChars_def Search_chunk_def GetFilter_def
        TryRLock_def db_Get_def shard_abc_def byte_bloom_def last_byte_def db_NewIter_def
        List.map_filter_def less_char_def less_eq_char_def overlap_def float32_div_len_def
        SortResults_def Let_def is_word_def)
  from Search_confidence [OF e, of "\<lparr>Confidence = F32 (1 / 2), Overlap = [''bin=a''],
               Package = \<lparr>Name = ''a'', Tags = [''bin=a'']\<rparr>\<rparr>"] e
  show ?thesis by simp
qed

section \<open>Tag search: the order and multiplicity of the tags\<close>

lemma overlap_permutation:
  assumes "mset T1 = mset T2"
  shows "snd (overlap T1 ptags) = snd (overlap T2 ptags)"
    and "mset (fst (overlap T1 ptags)) = mset (fst (overlap T2 ptags))"
proof -
  let ?P = "\<lambda>stag. stag \<in> set ptags"
  from assms have m: "mset (filter ?P T1) = mset (filter ?P T2)"
    by (simp only: mset_filter)
  then have "length (filter ?P T1) = length (filter ?P T2)"
    by (rule mset_eq_length)
  moreover from assms have "length T1 = length T2"
    by (rule mset_eq_length)
  ultimately show "snd (overlap T1 ptags) = snd (overlap T2 ptags)"
    by (simp add: overlap_def Let_def)
  from m show "mset (fst (overlap T1 ptags)) = mset (fst (overlap T2 ptags))"
    by (simp add: overlap_def Let_def)
qed

lemma Search_scan_permutation:
  assumes "mset T1 = mset T2"
  shows "list_all2 same_hit (Search_scan T1 it) (Search_scan T2 it)"
proof (induction it)
  case Nil
  show ?case by simp
next
  case (Cons kv it)
  obtain key val where kv: "kv = (key, val)" by (cases kv)
  let ?p = "strings_Split (CHR 0x1F) val"
  from overlap_permutation [OF assms, of ?p] Cons kv show ?case
    by (cases "overlap T1 ?p"; cases "overlap T2 ?p") (simp add: same_hit_def)
qed

lemma Search_chunk_permutation:
  assumes "mset T1 = mset T2"
  shows "rel_sum (=) (list_all2 same_hit)
           (Search_chunk ext s T1 opt) (Search_chunk ext s T2 opt)"
proof -
  from assms have "set T1 = set T2" by (rule mset_eq_setD)
  then have "\<And>P. list_ex P T1 = list_ex P T2" by (simp add: list_ex_iff)
  with Search_scan_permutation [OF assms] show ?thesis
    by (simp add: Search_chunk_def split: sum.splits)
qed

lemma Search_workers_permutation:
  assumes "mset T1 = mset T2" and "list_all2 same_hit res1 res2"
  shows "rel_sum (=) (list_all2 same_hit)
           (Search_workers ext s T1 opts res1) (Search_workers ext s T2 opts res2)"
  using assms(2)
proof (induction opts arbitrary: res1 res2)
  case Nil
  then show ?case by simp
next
  case (Cons opt opts)
  show ?case
  proof (cases "Search_chunk ext s T1 opt")
    case (Inl e1)
    with Search_chunk_permutation [OF assms(1), of ext s opt] show ?thesis
      by (cases "Search_chunk ext s T2 opt") simp_all
  next
    case (Inr out1)
    with Search_chunk_permutation [OF assms(1), of ext s opt] obtain out2 where
      out2: "Search_chunk ext s T2 opt = Inr out2" and "list_all2 same_hit out1 out2"
      by (cases "Search_chunk ext s T2 opt") simp_all
    with Cons.prems have "list_all2 same_hit (res1 @ out1) (res2 @ out2)"
      by (simp add: list_all2_appendI)
    from Cons.IH [OF this] Inr out2 show ?thesis by simp
  qed
qed

lemma SortResults_cmp_same_hit:
  "same_hit x y \<Longrightarrow> same_hit a b \<Longrightarrow> SortResults_cmp x a = SortResults_cmp y b"
  by (simp add: same_hit_def SortResults_cmp_def)

lemma SortResults_insert_same_hit:
  assumes "same_hit x y" and "list_all2 same_hit xs ys"
  shows "list_all2 same_hit (SortResults_insert x xs) (SortResults_insert y ys)"
  using assms(2)
proof (induction xs ys rule: list_all2_induct)
  case Nil
  from assms(1) show ?case by simp
next
  case (Cons a xs b ys)
  from SortResults_cmp_same_hit [OF assms(1) Cons(1)] Cons assms(1) show ?case by simp
qed

lemma SortResults_same_hit:
  assumes "list_all2 same_hit xs ys"
  shows "list_all2 same_hit (SortResults xs) (SortResults ys)"
  using assms
  by (induction xs ys rule: list_all2_induct)
     (simp_all add: SortResults_def SortResults_insert_same_hit)

lemma same_hit_view: "list_all2 same_hit xs ys \<Longrightarrow> map hit_view xs = map hit_view ys"
proof (induction xs ys rule: list_all2_induct)
  case Nil
  show ?case by simp
next
  case (Cons x xs y ys)
  from Cons(1) have "set (Overlap x) = set (Overlap y)"
    unfolding same_hit_def by (metis mset_eq_setD)
  with Cons show ?case by (simp add: hit_view_def same_hit_def)
qed

lemma find_invalid_permutation:
  assumes "set T1 = set T2"
  shows "find P T1 = None \<longleftrightarrow> find P T2 = None"
  using assms by (simp add: find_None_iff)

lemma Search_permutation:
  assumes "mset T1 = mset T2" and "Search ext s T1 = Inr rs1"
  shows "\<exists>rs2. Search ext s T2 = Inr rs2 \<and> map hit_view rs1 = map hit_view rs2"
proof -
  let ?bad = "\<lambda>tag. \<not> tagRegex_MatchString tag"
  from assms(2) have v1: "find ?bad T1 = None"
    by (auto simp: Search_def split: option.splits)
  with assms(1) have v2: "find ?bad T2 = None"
    using find_invalid_permutation [OF mset_eq_setD] by blast
  show ?thesis
  proof (cases "SearchThreads s \<le> 0")
    case True
    with v1 v2 assms(2) show ?thesis by (simp add: Search_def)
  next
    case False
    with v1 assms(2) obtain res1 where
      w1: "Search_workers ext s T1 iterOpts [] = Inr res1" and rs1: "rs1 = SortResults res1"
      by (auto simp: Search_def split: sum.splits)
    have "rel_sum (=) (list_all2 same_hit)
            (Search_workers ext s T1 iterOpts []) (Search_workers ext s T2 iterOpts [])"
      by (rule Search_workers_permutation [OF assms(1)]) simp
    with w1 obtain res2 where
      w2: "Search_workers ext s T2 iterOpts [] = Inr res2" and "list_all2 same_hit res1 res2"
      by (auto elim: rel_sum.cases)
    then have "map hit_view (SortResults res1) = map hit_view (SortResults res2)"
      by (intro same_hit_view SortResults_same_hit)
    with False v2 w2 rs1 show ?thesis by (simp add: Search_def)
  qed
qed


lemma overlap_same_set:
  assumes "set T1 = set T2"
  shows "set (fst (overlap T1 ptags)) = set (fst (overlap T2 ptags))"
    and "snd (overlap T1 ptags) = F32 0 \<longleftrightarrow> snd (overlap T2 ptags) = F32 0"
proof -
  let ?P = "\<lambda>stag. stag \<in> set ptags"
  from assms show "set (fst (overlap T1 ptags)) = set (fst (overlap T2 ptags))"
    by (simp add: overlap_def Let_def)
  from assms have e: "T1 = [] \<longleftrightarrow> T2 = []" by (metis set_empty)
  from assms have "set (filter ?P T1) = set (filter ?P T2)" by simp
  then have f: "filter ?P T1 = [] \<longleftrightarrow> filter ?P T2 = []" by (metis set_empty)
  from e f show "snd (overlap T1 ptags) = F32 0 \<longleftrightarrow> snd (overlap T2 ptags) = F32 0"
    by (auto simp: overlap_def float32_div_len_def Let_def)
qed

lemma Search_scan_same_set:
  assumes "set T1 = set T2"
  shows "map hit_overlap (Search_scan T1 it) = map hit_overlap (Search_scan T2 it)"
proof (induction it)
  case Nil
  show ?case by simp
next
  case (Cons kv it)
  obtain key val where kv: "kv = (key, val)" by (cases kv)
  let ?p = "strings_Split (CHR 0x1F) val"
  from overlap_same_set [OF assms, of ?p] Cons kv show ?case
    by (cases "overlap T1 ?p"; cases "overlap T2 ?p") (simp add: hit_overlap_def)
qed

lemma Search_chunk_same_set:
  assumes "set T1 = set T2"
  shows "rel_sum (=) (\<lambda>out1 out2. map hit_overlap out1 = map hit_overlap out2)
           (Search_chunk ext s T1 opt) (Search_chunk ext s T2 opt)"
proof -
  from assms have "\<And>P. list_ex P T1 = list_ex P T2" by (simp add: list_ex_iff)
  with Search_scan_same_set [OF assms] show ?thesis
    by (simp add: Search_chunk_def split: sum.splits)
qed

lemma Search_workers_same_set:
  assumes "set T1 = set T2" and "map hit_overlap res1 = map hit_overlap res2"
  shows "rel_sum (=) (\<lambda>out1 out2. map hit_overlap out1 = map hit_overlap out2)
           (Search_workers ext s T1 opts res1) (Search_workers ext s T2 opts res2)"
  using assms(2)
proof (induction opts arbitrary: res1 res2)
  case Nil
  then show ?case by simp
next
  case (Cons opt opts)
  show ?case
  proof (cases "Search_chunk ext s T1 opt")
    case (Inl e1)
    with Search_chunk_same_set [OF assms(1), of ext s opt] show ?thesis
      by (cases "Search_chunk ext s T2 opt") simp_all
  next
    case (Inr out1)
    with Search_chunk_same_set [OF assms(1), of ext s opt] obtain out2 where
      out2: "Search_chunk ext s T2 opt = Inr out2" and
      "map hit_overlap out1 = map hit_overlap out2"
      by (cases "Search_chunk ext s T2 opt") simp_all
    with Cons.prems have "map hit_overlap (res1 @ out1) = map hit_overlap (res2 @ out2)"
      by simp
    from Cons.IH [OF this] Inr out2 show ?thesis by simp
  qed
qed

lemma mset_SortResults_insert: "mset (SortResults_insert x ys) = add_mset x (mset ys)"
  by (induction ys) auto

lemma mset_SortResults: "mset (SortResults results) = mset results"
  by (induction results) (simp_all add: SortResults_def mset_SortResults_insert)

lemma Search_same_set:
  assumes "set T1 = set T2" and "Search ext s T1 = Inr rs1"
  shows "\<exists>rs2. Search ext s T2 = Inr rs2
           \<and> mset (map hit_overlap rs1) = mset (map hit_overlap rs2)"
proof -
  let ?bad = "\<lambda>tag. \<not> tagRegex_MatchString tag"
  from assms(2) have v1: "find ?bad T1 = None"
    by (auto simp: Search_def split: option.splits)
  with assms(1) have v2: "find ?bad T2 = None"
    using find_invalid_permutation by blast
  show ?thesis
  proof (cases "SearchThreads s \<le> 0")
    case True
    with v1 v2 assms(2) show ?thesis by (auto simp: Search_def)
  next
    case False
    with v1 assms(2) obtain res1 where
      w1: "Search_workers ext s T1 iterOpts [] = Inr res1" and rs1: "rs1 = SortResults res1"
      by (auto simp: Search_def split: sum.splits)
    have "rel_sum (=) (\<lambda>out1 out2. map hit_overlap out1 = map hit_overlap out2)
            (Search_workers ext s T1 iterOpts []) (Search_workers ext s T2 iterOpts [])"
      by (rule Search_workers_same_set [OF assms(1)]) simp
    with w1 obtain res2 where
      w2: "Search_workers ext s T2 iterOpts [] = Inr res2" and
      "map hit_overlap res1 = map hit_overlap res2"
      by (auto elim: rel_sum.cases)
    then have "mset (map hit_overlap res1) = mset (map hit_overlap res2)"
      by (simp only:)
    then have "mset (map hit_overlap (SortResults res1)) = mset (map hit_overlap (SortResults res2))"
      by (simp add: mset_SortResults)
    with False v2 w2 rs1 show ?thesis by (simp add: Search_def)
  qed
qed

text \<open>
  C7, as amended.  When \<open>T1\<close> and \<open>T2\<close> have the same set of tags and the search for
  \<open>T1\<close> succeeds, the search for \<open>T2\<close> succeeds and matches the same packages, each
  with the same set of overlap tags.  When moreover each tag occurs as often in \<open>T2\<close>
  as in \<open>T1\<close>, the results also come in the same order with the same confidence.
\<close>

theorem Search_same_tag_set:
  assumes "set T1 = set T2" and "Search ext s T1 = Inr rs1"
  shows "\<exists>rs2. Search ext s T2 = Inr rs2
           \<and> mset (map hit_overlap rs1) = mset (map hit_overlap rs2)
           \<and> (mset T1 = mset T2 \<longrightarrow> map hit_view rs1 = map hit_view rs2)"
proof -
  from Search_same_set [OF assms] obtain rs2 where
    a: "Search ext s T2 = Inr rs2" and
    b: "mset (map hit_overlap rs1) = mset (map hit_overlap rs2)"
    by blast
  have "mset T1 = mset T2 \<longrightarrow> map hit_view rs1 = map hit_view rs2"
  proof
    assume "mset T1 = mset T2"
    from Search_permutation [OF this assms(2)] a show "map hit_view rs1 = map hit_view rs2"
      by simp
  qed
  with a b show ?thesis by blast
qed

text \<open>The definitions that evaluate a search on the example shard.\<close>

lemmas Search_eval =
  Search_def iterOpts_def startChars_def Search_chunk_def GetFilter_def
  TryRLock_def db_Get_def shard_abc_def byte_bloom_def last_byte_def db_NewIter_def
  List.map_filter_def less_char_def less_eq_char_def overlap_def float32_div_len_def
  SortResults_def Let_def is_word_def

theorem Search_same_tag_set_witness:
  "set [''bin=ab'', ''bin=zz''] = set [''bin=ab'', ''bin=ab'', ''bin=zz'']
   \<and> Search byte_bloom shard_abc [''bin=ab'', ''bin=zz'']
       = Inr [\<lparr>Confidence = F32 (1 / 2), Overlap = [''bin=ab''],
               Package = \<lparr>Name = ''ab'', Tags = [''bin=ab'']\<rparr>\<rparr>]
   \<and> (\<exists>rs2. Search byte_bloom shard_abc [''bin=ab'', ''bin=ab'', ''bin=zz''] = Inr rs2
        \<and> mset (map hit_overlap rs2) = {#(\<lparr>Name = ''ab'', Tags = [''bin=ab'']\<rparr>, {''bin=ab''})#})
   \<and> mset [''bin=ab'', ''bin=zz''] = mset [''bin=zz'', ''bin=ab'']
   \<and> (\<exists>rs3. Search byte_bloom shard_abc [''bin=zz'', ''bin=ab''] = Inr rs3
        \<and> map hit_view rs3 = [(''ab'', F32 (1 / 2), {''bin=ab''})])"
proof -
  let ?r = "\<lparr>Confidence = F32 (1 / 2), Overlap = [''bin=ab''],
               Package = \<lparr>Name = ''ab'', Tags = [''bin=ab'']\<rparr>\<rparr>"
  have st: "set [''bin=ab'', ''bin=zz''] = set [''bin=ab'', ''bin=ab'', ''bin=zz'']" by simp
  have st': "set [''bin=ab'', ''bin=zz''] = set [''bin=zz'', ''bin=ab'']" by auto
  have m: "mset [''bin=ab'', ''bin=zz''] = mset [''bin=zz'', ''bin=ab'']" by simp
  have e: "Search byte_bloom shard_abc [''bin=ab'', ''bin=zz''] = Inr [?r]"
    by (simp add: Search_eval)
  from Search_same_tag_set [OF st e] obtain rs2 where
    a2: "Search byte_bloom shard_abc [''bin=ab'', ''bin=ab'', ''bin=zz''] = Inr rs2" and
    b2: "mset (map hit_overlap [?r]) = mset (map hit_overlap rs2)"
    by blast
  from b2 have c2: "mset (map hit_overlap rs2)
      = {#(\<lparr>Name = ''ab'', Tags = [''bin=ab'']\<rparr>, {''bin=ab''})#}"
    by (simp add: hit_overlap_def)
  from Search_same_tag_set [OF st' e] m obtain rs3 where
    a3: "Search byte_bloom shard_abc [''bin=zz'', ''bin=ab''] = Inr rs3" and
    b3: "map hit_view [?r] = map hit_view rs3"
    by blast
  from b3 have c3: "map hit_view rs3 = [(''ab'', F32 (1 / 2), {''bin=ab''})]"
    by (simp add: hit_view_def)
  show ?thesis
    by (intro conjI exI [of _ rs2] exI [of _ rs3]) (rule st e a2 c2 m a3 c3)+
qed

text \<open>
  The claim as stated, for two lists with the same set of tags, fails in its confidence
  part when one list repeats a tag: \<^verbatim>\<open>overlap\<close> counts list elements, so the
  confidence of the package \<open>ab\<close> is \<open>1/2\<close> for one list and \<open>2/3\<close> for the other.
\<close>

theorem Search_duplicate_tag_counterexample:
  "set [''bin=ab'', ''bin=zz''] = set [''bin=ab'', ''bin=ab'', ''bin=zz'']
   \<and> Search byte_bloom shard_abc [''bin=ab'', ''bin=zz'']
       = Inr [\<lparr>Confidence = F32 (1 / 2), Overlap = [''bin=ab''],
               Package = \<lparr>Name = ''ab'', Tags = [''bin=ab'']\<rparr>\<rparr>]
   \<and> Search byte_bloom shard_abc [''bin=ab'', ''bin=ab'', ''bin=zz'']
       = Inr [\<lparr>Confidence = F32 (2 / 3), Overlap = [''bin=ab'', ''bin=ab''],
               Package = \<lparr>Name = ''ab'', Tags = [''bin=ab'']\<rparr>\<rparr>]
   \<and> F32 (1 / 2) \<noteq> F32 (2 / 3)"
  by (simp add: Search_eval)

section \<open>Replacing a shard: outcomes\<close>


text \<open>A store whose database was closed and not reopened answers no query.\<close>

lemma GetPkg_closed: "\<not> blocked s \<Longrightarrow> db_closed s \<Longrightarrow> GetPkg s name = Inl PanicClosed"
  by (simp add: GetPkg_def TryRLock_def)





section \<open>The refresh pipeline: filters have no false negatives\<close>

subsection \<open>Splitting and joining\<close>

lemma strings_Split_no_sep: "sep \<notin> set t \<Longrightarrow> strings_Split sep t = [t]"
  by (induction t) auto

lemma strings_Split_append:
  "sep \<notin> set t \<Longrightarrow> strings_Split sep (t @ sep # u) = t # strings_Split sep u"
  by (induction t) auto

lemma strings_Split_sep_free: "t \<in> set (strings_Split sep s) \<Longrightarrow> sep \<notin> set t"
proof (induction s arbitrary: t)
  case Nil
  then show ?case by simp
next
  case (Cons c s)
  then show ?case
    by (cases "strings_Split sep s") (auto split: if_splits)
qed

lemma fst_joinTags_loop_Cons:
  "fst (joinTags_loop ext (tag # rest) f)
     = tag @ (if rest \<noteq> [] then [CHR 0x1F] else []) @ fst (joinTags_loop ext rest (Add ext f tag))"
  by (simp add: Let_def split: prod.splits)

lemma snd_joinTags_loop_Cons:
  "snd (joinTags_loop ext (tag # rest) f) = snd (joinTags_loop ext rest (Add ext f tag))"
  by (simp add: Let_def split: prod.splits)

lemma strings_Split_joinTags_loop:
  assumes "tags \<noteq> []" and "sep_free tags"
  shows "strings_Split (CHR 0x1F) (fst (joinTags_loop ext tags f)) = tags"
  using assms
proof (induction tags arbitrary: f)
  case Nil
  then show ?case by simp
next
  case (Cons tag rest)
  from Cons.prems have tag: "CHR 0x1F \<notin> set tag" and rest: "sep_free rest"
    by (simp_all add: sep_free_def)
  show ?case
  proof (cases "rest = []")
    case True
    with tag show ?thesis by (simp add: strings_Split_no_sep)
  next
    case False
    from Cons.IH [OF False rest, of "Add ext f tag"] tag False show ?thesis
      by (simp only: fst_joinTags_loop_Cons) (simp add: strings_Split_append)
  qed
qed

lemma Lookup_joinTags_loop:
  assumes "bloom_laws ext"
  shows "(\<forall>tag\<in>set tags. Lookup ext (snd (joinTags_loop ext tags f)) tag)
       \<and> (\<forall>key. Lookup ext f key \<longrightarrow> Lookup ext (snd (joinTags_loop ext tags f)) key)"
proof (induction tags arbitrary: f)
  case Nil
  show ?case by simp
next
  case (Cons tag rest)
  from assms have a: "Lookup ext (Add ext f tag) tag"
    and m: "\<And>key. Lookup ext f key \<Longrightarrow> Lookup ext (Add ext f tag) key"
    by (simp_all add: bloom_laws_def)
  from Cons [of "Add ext f tag"] a m show ?case
    by (simp only: snd_joinTags_loop_Cons) auto
qed

lemma set_sort_compact: "set (remdups_adj (sort xs)) = set xs"
  by simp

lemma sort_compact_Nil: "remdups_adj (sort xs) = [] \<longleftrightarrow> xs = []"
  by (metis set_sort_compact set_empty)

subsection \<open>Filters during a batch\<close>

lemma filters_grow_refl: "filters_grow ext F F"
  by (simp add: filters_grow_def)

lemma filters_grow_trans:
  "filters_grow ext F F' \<Longrightarrow> filters_grow ext F' F'' \<Longrightarrow> filters_grow ext F F''"
  unfolding filters_grow_def by (meson)

lemma filter_covers_grow:
  "filter_covers ext F c tags \<Longrightarrow> filters_grow ext F F' \<Longrightarrow> filter_covers ext F' c tags"
  unfolding filter_covers_def filters_grow_def by (meson)

lemma key_covered_grow:
  "key_covered ext name vals F \<Longrightarrow> filters_grow ext F F' \<Longrightarrow> key_covered ext name vals F'"
  unfolding key_covered_def by (auto intro: filter_covers_grow)

lemma joinTags_props:
  assumes laws: "bloom_laws ext" and j: "joinTags ext c tags F = (out, F')"
  shows "out = fst (joinTags_loop ext tags (case map_of F c of None \<Rightarrow> NewFilter ext | Some f \<Rightarrow> f))"
    and "filters_grow ext F F'"
    and "filter_covers ext F' c tags"
    and "distinct (map fst F) \<Longrightarrow> distinct (map fst F')"
proof -
  let ?f0 = "case map_of F c of None \<Rightarrow> NewFilter ext | Some f \<Rightarrow> f"
  let ?r = "joinTags_loop ext tags ?f0"
  from j have out: "out = fst ?r" and F': "F' = AList.update c (snd ?r) F"
    by (simp_all add: joinTags_def Let_def split: prod.splits)
  from out show "out = fst ?r" .
  note L = Lookup_joinTags_loop [OF laws, of tags ?f0]
  from F' L show "filter_covers ext F' c tags"
    by (simp add: filter_covers_def update_conv')
  from F' L show "filters_grow ext F F'"
    by (auto simp: filters_grow_def update_conv')
  from F' show "distinct (map fst F) \<Longrightarrow> distinct (map fst F')"
    by (simp add: distinct_update)
qed

lemma sort_Nil_iff: "sort xs = [] \<longleftrightarrow> xs = []"
  by (metis length_sort length_0_conv)

lemma WriteBatch_loop_Cons:
  assumes "\<not> (length (Name item) = 0 \<or> length (Tags item) = 0)"
    and "joinTags ext (hd (Name item)) (merged_tags d item) F = (val, F1)"
  shows "WriteBatch_loop ext d (item # items) (b, F)
           = WriteBatch_loop ext d items (b @ [(Name item, val)], F1)"
  using assms by (simp add: merged_tags_def Let_def)

lemma merged_tags_props:
  shows "set (Tags item) \<subseteq> set (merged_tags d item)"
    and "Tags item \<noteq> [] \<Longrightarrow> merged_tags d item \<noteq> []"
    and "sep_free (Tags item) \<Longrightarrow> sep_free (merged_tags d item)"
proof -
  show "set (Tags item) \<subseteq> set (merged_tags d item)"
    by (cases "db_Get d (Name item)") (simp_all add: merged_tags_def)
  show "Tags item \<noteq> [] \<Longrightarrow> merged_tags d item \<noteq> []"
    by (cases "db_Get d (Name item)") (simp_all add: merged_tags_def sort_Nil_iff)
  show "sep_free (Tags item) \<Longrightarrow> sep_free (merged_tags d item)"
    by (cases "db_Get d (Name item)")
       (auto simp: merged_tags_def sep_free_def dest: strings_Split_sep_free)
qed

lemma WriteBatch_loop_grow:
  assumes laws: "bloom_laws ext"
    and "WriteBatch_loop ext d items (b, F) = (b', F')"
  shows "filters_grow ext F F' \<and> (distinct (map fst F) \<longrightarrow> distinct (map fst F'))"
  using assms(2)
proof (induction items arbitrary: b F)
  case Nil
  then show ?case by (simp add: filters_grow_refl)
next
  case (Cons item items)
  show ?case
  proof (cases "length (Name item) = 0 \<or> length (Tags item) = 0")
    case True
    with Cons show ?thesis by simp
  next
    case False
    obtain val F1 where j: "joinTags ext (hd (Name item)) (merged_tags d item) F = (val, F1)"
      by (cases "joinTags ext (hd (Name item)) (merged_tags d item) F")
    note step = WriteBatch_loop_Cons [OF False j, of items b]
    note J = joinTags_props [OF laws j]
    from Cons.prems step have "WriteBatch_loop ext d items (b @ [(Name item, val)], F1) = (b', F')"
      by simp
    from Cons.IH [OF this] J(2) J(4) show ?thesis
      by (auto intro: filters_grow_trans)
  qed
qed

text \<open>Every tag of every record that the batch writes is reported afterwards.\<close>

lemma WriteBatch_loop_ingested:
  assumes laws: "bloom_laws ext"
    and "item \<in> set items" and "Name item \<noteq> []" and "tag \<in> set (Tags item)"
    and "WriteBatch_loop ext d items (b, F) = (b', F')"
  shows "filter_covers ext F' (hd (Name item)) [tag]"
  using assms(2,5)
proof (induction items arbitrary: b F)
  case Nil
  then show ?case by simp
next
  case (Cons it items)
  show ?case
  proof (cases "length (Name it) = 0 \<or> length (Tags it) = 0")
    case True
    with assms(3,4) have "item \<noteq> it" by auto
    with Cons True show ?thesis by simp
  next
    case False
    obtain val F1 where j: "joinTags ext (hd (Name it)) (merged_tags d it) F = (val, F1)"
      by (cases "joinTags ext (hd (Name it)) (merged_tags d it) F")
    note step = WriteBatch_loop_Cons [OF False j, of items b]
    note sub = merged_tags_props(1) [of it d]
    note J = joinTags_props [OF laws j]
    from Cons.prems(2) step have
      rest: "WriteBatch_loop ext d items (b @ [(Name it, val)], F1) = (b', F')"
      by simp
    show ?thesis
    proof (cases "item = it")
      case True
      with J(3) sub assms(4) have "filter_covers ext F1 (hd (Name item)) [tag]"
        by (auto simp: filter_covers_def)
      with WriteBatch_loop_grow [OF laws rest] show ?thesis
        by (auto intro: filter_covers_grow)
    next
      case False
      with Cons.prems(1) have "item \<in> set items" by simp
      from Cons.IH [OF this rest] show ?thesis .
    qed
  qed
qed

text \<open>The values a batch writes for a package whose records are free of the separator
  are covered.\<close>

lemma WriteBatch_loop_covered:
  assumes laws: "bloom_laws ext"
    and "\<forall>item\<in>set items. Name item = name \<longrightarrow> sep_free (Tags item)"
    and "key_covered ext name {v. (name, v) \<in> set b} F"
    and "WriteBatch_loop ext d items (b, F) = (b', F')"
  shows "key_covered ext name {v. (name, v) \<in> set b'} F'"
  using assms(2-)
proof (induction items arbitrary: b F)
  case Nil
  then show ?case by simp
next
  case (Cons item items)
  show ?case
  proof (cases "length (Name item) = 0 \<or> length (Tags item) = 0")
    case True
    with Cons show ?thesis by simp
  next
    case False
    obtain val F1 where j: "joinTags ext (hd (Name item)) (merged_tags d item) F = (val, F1)"
      by (cases "joinTags ext (hd (Name item)) (merged_tags d item) F")
    note step = WriteBatch_loop_Cons [OF False j, of items b]
    from False have ne: "merged_tags d item \<noteq> []" by (simp add: merged_tags_props(2))
    note J = joinTags_props [OF laws j]
    have new: "key_covered ext name {v. (name, v) \<in> set [(Name item, val)]} F1"
    proof (cases "Name item = name")
      case True
      with Cons.prems(1) have "sep_free (Tags item)" by simp
      then have "sep_free (merged_tags d item)" by (rule merged_tags_props(3))
      with J(1) ne have "strings_Split (CHR 0x1F) val = merged_tags d item"
        by (simp add: strings_Split_joinTags_loop)
      with J(3) False True show ?thesis by (auto simp: key_covered_def)
    next
      case False
      then show ?thesis by (simp add: key_covered_def)
    qed
    from key_covered_grow [OF Cons.prems(2) J(2)] new
    have cov: "key_covered ext name {v. (name, v) \<in> set (b @ [(Name item, val)])} F1"
      by (auto simp: key_covered_def)
    from Cons.prems(3) step have
      rest: "WriteBatch_loop ext d items (b @ [(Name item, val)], F1) = (b', F')"
      by simp
    from Cons.prems(1) have "\<forall>item\<in>set items. Name item = name \<longrightarrow> sep_free (Tags item)"
      by simp
    from Cons.IH [OF this cov rest] show ?thesis .
  qed
qed

lemma map_of_batch_Commit:
  "map_of (batch_Commit d b) k = Some v \<Longrightarrow> (k, v) \<in> set b \<or> map_of d k = Some v"
proof (induction b arbitrary: d)
  case Nil
  then show ?case by (simp add: batch_Commit_def)
next
  case (Cons kv b)
  obtain k' v' where kv: "kv = (k', v')" by (cases kv)
  from Cons.prems kv have "map_of (batch_Commit (db_Set d k' v') b) k = Some v"
    by (simp add: batch_Commit_def)
  from Cons.IH [OF this] kv show ?case
    by (auto simp: db_Set_def update_conv' split: if_splits)
qed

lemma WriteBatch_run:
  assumes "WriteBatch ext s batch F = (None, s', F')"
  obtains b where "WriteBatch_loop ext (db s) batch ([], F) = (b, F')"
    and "s' = s\<lparr>db := batch_Commit (db s) b\<rparr>"
  using assms
  by (auto simp: WriteBatch_def Let_def split: if_splits prod.splits)

lemma WriteBatch_covered:
  assumes laws: "bloom_laws ext"
    and free: "\<forall>item\<in>set batch. Name item = name \<longrightarrow> sep_free (Tags item)"
    and inv: "key_covered ext name {v. map_of (db s) name = Some v} F"
    and run: "WriteBatch ext s batch F = (None, s', F')"
  shows "key_covered ext name {v. map_of (db s') name = Some v} F'"
proof -
  from run obtain b where loop: "WriteBatch_loop ext (db s) batch ([], F) = (b, F')"
    and s': "s' = s\<lparr>db := batch_Commit (db s) b\<rparr>"
    by (rule WriteBatch_run)
  have "key_covered ext name {v. (name, v) \<in> set []} F" by (simp add: key_covered_def)
  from WriteBatch_loop_covered [OF laws free this loop]
  have b: "key_covered ext name {v. (name, v) \<in> set b} F'" .
  from WriteBatch_loop_grow [OF laws loop] have "filters_grow ext F F'" by simp
  from key_covered_grow [OF inv this] b s'
  show ?thesis
    unfolding key_covered_def by (auto dest!: map_of_batch_Commit)
qed

lemma WriteBatch_frame:
  assumes laws: "bloom_laws ext" and run: "WriteBatch ext s batch F = (None, s', F')"
  shows "filters_grow ext F F'"
    and "distinct (map fst F) \<Longrightarrow> distinct (map fst F')"
    and "blocked s' = blocked s" and "db_closed s' = db_closed s"
proof -
  from run obtain b where loop: "WriteBatch_loop ext (db s) batch ([], F) = (b, F')"
    and s': "s' = s\<lparr>db := batch_Commit (db s) b\<rparr>"
    by (rule WriteBatch_run)
  from WriteBatch_loop_grow [OF laws loop] show "filters_grow ext F F'"
    and "distinct (map fst F) \<Longrightarrow> distinct (map fst F')" by simp_all
  from s' show "blocked s' = blocked s" and "db_closed s' = db_closed s" by simp_all
qed

lemma WriteBatch_ingested:
  assumes laws: "bloom_laws ext"
    and "item \<in> set batch" and "Name item \<noteq> []" and "tag \<in> set (Tags item)"
    and run: "WriteBatch ext s batch F = (None, s', F')"
  shows "filter_covers ext F' (hd (Name item)) [tag]"
proof -
  from run obtain b where loop: "WriteBatch_loop ext (db s) batch ([], F) = (b, F')"
    by (rule WriteBatch_run)
  from WriteBatch_loop_ingested [OF laws assms(2-4) loop] show ?thesis .
qed

subsection \<open>The record loop\<close>

lemma set_AList_update:
  "(k', v') \<in> set (AList.update k v al) \<Longrightarrow> (k', v') = (k, v) \<or> (k', v') \<in> set al"
  by (induction al) (auto split: if_splits)

text \<open>One record merged into \<^verbatim>\<open>collected\<close>, as the loop of \<^verbatim>\<open>Pull\<close> does it.\<close>

lemma Pull_loop_Cons:
  assumes "Error rec = None"
  shows "Pull_loop ext (rec # recs) i collected F s2
     = (let merged =
              (case map_of collected (Name rec) of
                 None \<Rightarrow> AList.update (Name rec) rec collected
               | Some curRec \<Rightarrow>
                   AList.update (Name rec) (curRec\<lparr>Tags := Tags curRec @ Tags rec\<rparr>) collected)
        in if i \<ge> batchSize then
             (case WriteBatch ext s2 (map snd merged) F of
                (Some err, _, _) \<Rightarrow> Inl err
              | (None, s2', F') \<Rightarrow> Pull_loop ext recs (0 + 1) [] F' s2')
           else Pull_loop ext recs (i + 1) merged F s2)"
  using assms by simp

lemma merged_names:
  assumes "\<forall>(k, e)\<in>set collected. Name e = k"
  shows "\<forall>(k, e)\<in>set
           (case map_of collected (Name rec) of
              None \<Rightarrow> AList.update (Name rec) rec collected
            | Some curRec \<Rightarrow>
                AList.update (Name rec) (curRec\<lparr>Tags := Tags curRec @ Tags rec\<rparr>) collected).
         Name e = k"
proof (cases "map_of collected (Name rec)")
  case None
  with assms show ?thesis by (auto dest!: set_AList_update)
next
  case (Some curRec)
  then have "(Name rec, curRec) \<in> set collected" by (rule map_of_SomeD)
  with assms have "Name curRec = Name rec" by auto
  with Some assms show ?thesis by (auto dest!: set_AList_update)
qed

lemma merged_free:
  assumes "\<forall>(k, e)\<in>set collected. Name e = k \<and> (k = name \<longrightarrow> sep_free (Tags e))"
    and "Name rec = name \<longrightarrow> sep_free (Tags rec)"
  shows "\<forall>(k, e)\<in>set
           (case map_of collected (Name rec) of
              None \<Rightarrow> AList.update (Name rec) rec collected
            | Some curRec \<Rightarrow>
                AList.update (Name rec) (curRec\<lparr>Tags := Tags curRec @ Tags rec\<rparr>) collected).
         Name e = k \<and> (k = name \<longrightarrow> sep_free (Tags e))"
proof (cases "map_of collected (Name rec)")
  case None
  with assms show ?thesis by (auto dest!: set_AList_update)
next
  case (Some curRec)
  then have "(Name rec, curRec) \<in> set collected" by (rule map_of_SomeD)
  with assms(1) have c: "Name curRec = Name rec"
    "Name rec = name \<longrightarrow> sep_free (Tags curRec)" by auto
  with assms(2) have "Name rec = name \<longrightarrow> sep_free (Tags curRec @ Tags rec)"
    by (auto simp: sep_free_def)
  with Some assms(1) c(1) show ?thesis by (auto dest!: set_AList_update)
qed

lemma Pull_loop_covered:
  assumes laws: "bloom_laws ext"
    and "\<forall>r\<in>set recs. Name r = name \<longrightarrow> sep_free (Tags r)"
    and "\<forall>(k, e)\<in>set collected. Name e = k \<and> (k = name \<longrightarrow> sep_free (Tags e))"
    and "key_covered ext name {v. map_of (db s2) name = Some v} F"
    and "Pull_loop ext recs i collected F s2 = Inr (collected', F', s2')"
  shows "key_covered ext name {v. map_of (db s2') name = Some v} F'
       \<and> (\<forall>(k, e)\<in>set collected'. Name e = k \<and> (k = name \<longrightarrow> sep_free (Tags e)))"
  using assms(2-)
proof (induction recs arbitrary: i collected F s2)
  case Nil
  then show ?case by simp
next
  case (Cons rec recs)
  from Cons.prems(4) have noerr: "Error rec = None"
    by (cases "Error rec") simp_all
  define merged where "merged =
    (case map_of collected (Name rec) of
       None \<Rightarrow> AList.update (Name rec) rec collected
     | Some curRec \<Rightarrow>
         AList.update (Name rec) (curRec\<lparr>Tags := Tags curRec @ Tags rec\<rparr>) collected)"
  from Cons.prems(1) have rec_free: "Name rec = name \<longrightarrow> sep_free (Tags rec)" and
    recs_free: "\<forall>r\<in>set recs. Name r = name \<longrightarrow> sep_free (Tags r)" by simp_all
  from merged_free [OF Cons.prems(2) rec_free]
  have mf: "\<forall>(k, e)\<in>set merged. Name e = k \<and> (k = name \<longrightarrow> sep_free (Tags e))"
    unfolding merged_def .
  note unf = Pull_loop_Cons [OF noerr, of ext recs i collected F s2, folded merged_def]
  show ?case
  proof (cases "i \<ge> batchSize")
    case False
    with Cons.prems(4) unf have "Pull_loop ext recs (i + 1) merged F s2 = Inr (collected', F', s2')"
      by (simp add: Let_def)
    from Cons.IH [OF recs_free mf Cons.prems(3) this] show ?thesis .
  next
    case True
    obtain e sa Fa where wb: "WriteBatch ext s2 (map snd merged) F = (e, sa, Fa)"
      by (cases "WriteBatch ext s2 (map snd merged) F")
    with Cons.prems(4) unf True have e: "e = None"
      and rest: "Pull_loop ext recs (0 + 1) [] Fa sa = Inr (collected', F', s2')"
      by (auto simp: Let_def split: option.splits)
    from mf have "\<forall>item\<in>set (map snd merged). Name item = name \<longrightarrow> sep_free (Tags item)"
      by auto
    from WriteBatch_covered [OF laws this Cons.prems(3) wb [unfolded e]]
    have cov: "key_covered ext name {v. map_of (db sa) name = Some v} Fa" .
    have "\<forall>(k, e)\<in>set []. Name e = k \<and> (k = name \<longrightarrow> sep_free (Tags e))" by simp
    from Cons.IH [OF recs_free this cov rest] show ?thesis .
  qed
qed

lemma Pull_loop_frame:
  assumes laws: "bloom_laws ext"
    and "distinct (map fst F)"
    and "Pull_loop ext recs i collected F s2 = Inr (collected', F', s2')"
  shows "filters_grow ext F F' \<and> distinct (map fst F')
       \<and> blocked s2' = blocked s2 \<and> db_closed s2' = db_closed s2"
  using assms(2-)
proof (induction recs arbitrary: i collected F s2)
  case Nil
  then show ?case by (simp add: filters_grow_refl)
next
  case (Cons rec recs)
  from Cons.prems(2) have noerr: "Error rec = None"
    by (cases "Error rec") simp_all
  define merged where "merged =
    (case map_of collected (Name rec) of
       None \<Rightarrow> AList.update (Name rec) rec collected
     | Some curRec \<Rightarrow>
         AList.update (Name rec) (curRec\<lparr>Tags := Tags curRec @ Tags rec\<rparr>) collected)"
  note unf = Pull_loop_Cons [OF noerr, of ext recs i collected F s2, folded merged_def]
  show ?case
  proof (cases "i \<ge> batchSize")
    case False
    with Cons.prems(2) unf have "Pull_loop ext recs (i + 1) merged F s2 = Inr (collected', F', s2')"
      by (simp add: Let_def)
    from Cons.IH [OF Cons.prems(1) this] show ?thesis .
  next
    case True
    obtain e sa Fa where wb: "WriteBatch ext s2 (map snd merged) F = (e, sa, Fa)"
      by (cases "WriteBatch ext s2 (map snd merged) F")
    with Cons.prems(2) unf True have e: "e = None"
      and rest: "Pull_loop ext recs (0 + 1) [] Fa sa = Inr (collected', F', s2')"
      by (auto simp: Let_def split: option.splits)
    note W = WriteBatch_frame [OF laws wb [unfolded e]]
    from Cons.IH [OF W(2) [OF Cons.prems(1)] rest] W(1) W(3) W(4) show ?thesis
      by (auto intro: filters_grow_trans)
  qed
qed

text \<open>A tag of a record with a non-empty name is, after the loop, either waiting in
  \<^verbatim>\<open>collected\<close> under that name or reported by the filter of its first byte.\<close>

lemma Pull_loop_ingested:
  assumes laws: "bloom_laws ext" and ne: "name \<noteq> []"
    and "\<forall>(k, e)\<in>set collected. Name e = k"
    and "(\<exists>r\<in>set recs. Name r = name \<and> tag \<in> set (Tags r))
         \<or> (\<exists>e. map_of collected name = Some e \<and> tag \<in> set (Tags e))
         \<or> filter_covers ext F (hd name) [tag]"
    and "Pull_loop ext recs i collected F s2 = Inr (collected', F', s2')"
  shows "((\<exists>e. map_of collected' name = Some e \<and> tag \<in> set (Tags e))
          \<or> filter_covers ext F' (hd name) [tag])
       \<and> (\<forall>(k, e)\<in>set collected'. Name e = k)"
  using assms(3-)
proof (induction recs arbitrary: i collected F s2)
  case Nil
  then show ?case by simp
next
  case (Cons rec recs)
  from Cons.prems(3) have noerr: "Error rec = None"
    by (cases "Error rec") simp_all
  define merged where "merged =
    (case map_of collected (Name rec) of
       None \<Rightarrow> AList.update (Name rec) rec collected
     | Some curRec \<Rightarrow>
         AList.update (Name rec) (curRec\<lparr>Tags := Tags curRec @ Tags rec\<rparr>) collected)"
  from merged_names [OF Cons.prems(1)]
  have mn: "\<forall>(k, e)\<in>set merged. Name e = k" unfolding merged_def .
  note unf = Pull_loop_Cons [OF noerr, of ext recs i collected F s2, folded merged_def]
  have m_other: "Name rec \<noteq> name \<Longrightarrow> map_of merged name = map_of collected name"
    unfolding merged_def by (cases "map_of collected (Name rec)") (simp_all add: update_conv')
  have m_here: "Name rec = name \<Longrightarrow>
      \<exists>e. map_of merged name = Some e \<and> set (Tags rec) \<subseteq> set (Tags e)
           \<and> (\<forall>c. map_of collected name = Some c \<longrightarrow> set (Tags c) \<subseteq> set (Tags e))"
    unfolding merged_def by (cases "map_of collected (Name rec)") (auto simp: update_conv')
  have start: "(\<exists>r\<in>set recs. Name r = name \<and> tag \<in> set (Tags r))
         \<or> (\<exists>e. map_of merged name = Some e \<and> tag \<in> set (Tags e))
         \<or> filter_covers ext F (hd name) [tag]"
  proof (cases "Name rec = name")
    case True
    from m_here [OF True] obtain e where
      e: "map_of merged name = Some e" "set (Tags rec) \<subseteq> set (Tags e)"
      "\<forall>c. map_of collected name = Some c \<longrightarrow> set (Tags c) \<subseteq> set (Tags e)"
      by blast
    from Cons.prems(2) True e show ?thesis by auto
  next
    case False
    with Cons.prems(2) m_other [OF False] show ?thesis by auto
  qed
  show ?case
  proof (cases "i \<ge> batchSize")
    case False
    with Cons.prems(3) unf have "Pull_loop ext recs (i + 1) merged F s2 = Inr (collected', F', s2')"
      by (simp add: Let_def)
    from Cons.IH [OF mn start this] show ?thesis .
  next
    case True
    obtain e sa Fa where wb: "WriteBatch ext s2 (map snd merged) F = (e, sa, Fa)"
      by (cases "WriteBatch ext s2 (map snd merged) F")
    with Cons.prems(3) unf True have e: "e = None"
      and rest: "Pull_loop ext recs (0 + 1) [] Fa sa = Inr (collected', F', s2')"
      by (auto simp: Let_def split: option.splits)
    note wb' = wb [unfolded e]
    have start': "(\<exists>r\<in>set recs. Name r = name \<and> tag \<in> set (Tags r))
         \<or> (\<exists>e. map_of [] name = Some e \<and> tag \<in> set (Tags e))
         \<or> filter_covers ext Fa (hd name) [tag]"
    proof -
      from start consider
        (later) "\<exists>r\<in>set recs. Name r = name \<and> tag \<in> set (Tags r)" |
        (pending) en where "map_of merged name = Some en" "tag \<in> set (Tags en)" |
        (covered) "filter_covers ext F (hd name) [tag]"
        by blast
      then show ?thesis
      proof cases
        case later
        then show ?thesis by simp
      next
        case pending
        from pending(1) have mem: "(name, en) \<in> set merged" by (rule map_of_SomeD)
        with mn have "Name en = name" by auto
        moreover from mem have "en \<in> set (map snd merged)" by force
        ultimately have "filter_covers ext Fa (hd name) [tag]"
          using WriteBatch_ingested [OF laws _ _ pending(2) wb'] ne by simp
        then show ?thesis by simp
      next
        case covered
        from filter_covers_grow [OF covered WriteBatch_frame(1) [OF laws wb']] show ?thesis by simp
      qed
    qed
    have "\<forall>(k, e)\<in>set []. Name e = k" by simp
    from Cons.IH [OF this start' rest] show ?thesis .
  qed
qed

subsection \<open>Writing the filters and the metadata\<close>

lemma WriteFilters_loop_written:
  assumes laws: "bloom_laws ext"
    and "distinct (map fst F)"
    and "WriteFilters_loop ext False F d = (None, d')"
  shows "(\<forall>c f. map_of F c = Some f \<longrightarrow>
            (\<exists>data. map_of d' [CHR 0x02, c] = Some data \<and> GobDecode ext data = Inr f))
       \<and> (\<forall>k. k \<notin> (\<lambda>c. [CHR 0x02, c]) ` fst ` set F \<longrightarrow> map_of d' k = map_of d k)"
  using assms(2-)
proof (induction F arbitrary: d)
  case Nil
  then show ?case by simp
next
  case (Cons cf F)
  obtain c f where cf: "cf = (c, f)" by (cases cf)
  from Cons.prems(2) cf obtain data where
    enc: "GobEncode ext f = Inr data" and
    rest: "WriteFilters_loop ext False F (db_Set d [CHR 0x02, c] data) = (None, d')"
    by (cases "GobEncode ext f") simp_all
  from laws enc have dec: "GobDecode ext data = Inr f" by (simp add: bloom_laws_def)
  from Cons.prems(1) cf have dist: "distinct (map fst F)" and fresh: "c \<notin> fst ` set F" by simp_all
  note IH = Cons.IH [OF dist rest]
  from fresh have "[CHR 0x02, c] \<notin> (\<lambda>c. [CHR 0x02, c]) ` fst ` set F" by auto
  with IH have here: "map_of d' [CHR 0x02, c] = Some data"
    by (simp add: db_Set_def update_conv')
  show ?case
  proof (intro conjI allI impI)
    fix c' f' assume "map_of (cf # F) c' = Some f'"
    with cf IH here dec
    show "\<exists>data. map_of d' [CHR 0x02, c'] = Some data \<and> GobDecode ext data = Inr f'"
      by (cases "c' = c") auto
  next
    fix k assume "k \<notin> (\<lambda>c. [CHR 0x02, c]) ` fst ` set (cf # F)"
    with cf IH show "map_of d' k = map_of d k"
      by (simp add: db_Set_def update_conv')
  qed
qed

text \<open>The steps of a refresh that ran to completion on a fresh shadow store.\<close>

lemma Pull_records_run:
  assumes laws: "bloom_laws ext"
    and pull: "Pull_records ext (Open_fresh path) recs etag lastMod = Inr s2"
  obtains collected F sa sb Fb d' mdata where
    "Pull_loop ext recs 0 [] [] (Open_fresh path) = Inr (collected, F, sa)"
    "(if length collected \<noteq> 0 then WriteBatch ext sa (map snd collected) F
      else (None, sa, F)) = (None, sb, Fb)"
    "WriteFilters_loop ext False Fb (db sb) = (None, d')"
    "s2 = sb\<lparr>db := db_Set d' metaKey mdata\<rparr>"
    "\<not> blocked sb" "\<not> db_closed sb" "distinct (map fst Fb)"
proof -
  let ?s0 = "Open_fresh path"
  from pull obtain collected F sa where
    loop: "Pull_loop ext recs 0 [] [] ?s0 = Inr (collected, F, sa)"
    by (auto simp: Pull_records_def split: sum.splits)
  have "distinct (map fst ([] :: (char \<times> 'a) list))" by simp
  from Pull_loop_frame [OF laws this loop]
  have dist_a: "distinct (map fst F)" and st_a: "\<not> blocked sa" "\<not> db_closed sa"
    by (simp_all add: Open_fresh_def)
  obtain sb Fb where
    flush: "(if length collected \<noteq> 0 then WriteBatch ext sa (map snd collected) F
             else (None, sa, F)) = (None, sb, Fb)"
    and wf: "fst (WriteFilters ext sb Fb) = None"
    and wm: "\<exists>meta. WriteMeta ext (snd (WriteFilters ext sb Fb)) meta = (None, s2)"
    using pull loop
    by (auto simp: Pull_records_def split: sum.splits prod.splits option.splits)
  have st_b: "\<not> blocked sb" "\<not> db_closed sb" and dist_b: "distinct (map fst Fb)"
  proof -
    show "\<not> blocked sb"
    proof (cases "length collected \<noteq> 0")
      case True
      with flush WriteBatch_frame(3) [OF laws, of sa "map snd collected" F sb Fb] st_a
      show ?thesis by simp
    next
      case False
      with flush st_a show ?thesis by simp
    qed
    show "\<not> db_closed sb"
    proof (cases "length collected \<noteq> 0")
      case True
      with flush WriteBatch_frame(4) [OF laws, of sa "map snd collected" F sb Fb] st_a
      show ?thesis by simp
    next
      case False
      with flush st_a show ?thesis by simp
    qed
    show "distinct (map fst Fb)"
    proof (cases "length collected \<noteq> 0")
      case True
      with flush WriteBatch_frame(2) [OF laws, of sa "map snd collected" F sb Fb] dist_a
      show ?thesis by simp
    next
      case False
      with flush dist_a show ?thesis by simp
    qed
  qed
  obtain d' where wl: "WriteFilters_loop ext False Fb (db sb) = (None, d')"
    and sc: "snd (WriteFilters ext sb Fb) = sb\<lparr>db := d'\<rparr>"
    using wf st_b by (auto simp: WriteFilters_def TryRLock_def Let_def split: prod.splits)
  from wm obtain rmeta where
    "WriteMeta ext (snd (WriteFilters ext sb Fb)) rmeta = (None, s2)" by blast
  with sc st_b obtain mdata where
    s2: "s2 = sb\<lparr>db := db_Set d' metaKey mdata\<rparr>"
    by (cases "json_Marshal ext rmeta") (auto simp: WriteMeta_def TryRLock_def)
  from loop flush wl s2 st_b dist_b show ?thesis by (rule that)
qed

text \<open>After the filters and the metadata are written, every filter of the map is read
  back by \<^verbatim>\<open>GetFilter\<close>, and the keys that are not reserved are as they were.\<close>

lemma GetFilter_after_refresh:
  assumes laws: "bloom_laws ext" and "distinct (map fst Fb)"
    and wl: "WriteFilters_loop ext False Fb (db sb) = (None, d')"
    and s2: "s2 = sb\<lparr>db := db_Set d' metaKey mdata\<rparr>"
    and st: "\<not> blocked sb" "\<not> db_closed sb"
    and cov: "filter_covers ext Fb c tags"
  shows "\<exists>f. GetFilter ext s2 c = Inr f \<and> (\<forall>tag\<in>set tags. Lookup ext f tag)"
proof -
  note WF = WriteFilters_loop_written [OF laws assms(2) wl]
  from cov obtain f where f: "map_of Fb c = Some f" and
    look: "\<forall>t\<in>set tags. Lookup ext f t"
    by (auto simp: filter_covers_def)
  from WF f obtain data where
    "map_of d' [CHR 0x02, c] = Some data" and dec: "GobDecode ext data = Inr f"
    by blast
  then have "map_of (db s2) [CHR 0x02, c] = Some data"
    using s2 by (simp add: db_Set_def update_conv' metaKey_def)
  with dec s2 st have "GetFilter ext s2 c = Inr f"
    by (simp add: GetFilter_def TryRLock_def db_Get_def)
  with look show ?thesis by blast
qed

lemma refresh_ingested_tag:
  assumes laws: "bloom_laws ext"
    and pull: "Pull_records ext (Open_fresh path) recs etag lastMod = Inr s2"
    and r: "r \<in> set recs" "Name r \<noteq> []" "tag \<in> set (Tags r)"
  shows "\<exists>f. GetFilter ext s2 (hd (Name r)) = Inr f \<and> Lookup ext f tag"
proof -
  from Pull_records_run [OF laws pull] obtain collected F sa sb Fb d' mdata where
    loop: "Pull_loop ext recs 0 [] [] (Open_fresh path) = Inr (collected, F, sa)" and
    flush: "(if length collected \<noteq> 0 then WriteBatch ext sa (map snd collected) F
             else (None, sa, F)) = (None, sb, Fb)" and
    wl: "WriteFilters_loop ext False Fb (db sb) = (None, d')" and
    s2: "s2 = sb\<lparr>db := db_Set d' metaKey mdata\<rparr>" and
    st: "\<not> blocked sb" "\<not> db_closed sb" and dist: "distinct (map fst Fb)"
    by blast
  let ?name = "Name r"
  have "\<forall>(k, e)\<in>set ([] :: (string \<times> Record) list). Name e = k" by simp
  moreover from r have "(\<exists>r'\<in>set recs. Name r' = ?name \<and> tag \<in> set (Tags r'))
       \<or> (\<exists>e. map_of ([] :: (string \<times> Record) list) ?name = Some e \<and> tag \<in> set (Tags e))
       \<or> filter_covers ext [] (hd ?name) [tag]" by blast
  ultimately have after:
    "((\<exists>e. map_of collected ?name = Some e \<and> tag \<in> set (Tags e))
        \<or> filter_covers ext F (hd ?name) [tag])
     \<and> (\<forall>(k, e)\<in>set collected. Name e = k)"
    using Pull_loop_ingested [OF laws r(2) _ _ loop] by blast
  have cov: "filter_covers ext Fb (hd ?name) [tag]"
  proof (cases "length collected \<noteq> 0")
    case True
    with flush have w: "WriteBatch ext sa (map snd collected) F = (None, sb, Fb)" by simp
    from after show ?thesis
    proof (elim conjE disjE exE)
      fix e assume names: "\<forall>(k, e)\<in>set collected. Name e = k"
        and e: "map_of collected ?name = Some e" "tag \<in> set (Tags e)"
      from e(1) have mem: "(?name, e) \<in> set collected" by (rule map_of_SomeD)
      with names have n: "Name e = ?name" by auto
      from mem have "e \<in> set (map snd collected)" by force
      from WriteBatch_ingested [OF laws this _ e(2) w] n r(2) show ?thesis by simp
    next
      assume "filter_covers ext F (hd ?name) [tag]"
      from filter_covers_grow [OF this WriteBatch_frame(1) [OF laws w]] show ?thesis .
    qed
  next
    case False
    with flush after show ?thesis by auto
  qed
  from GetFilter_after_refresh [OF laws dist wl s2 st cov] show ?thesis by simp
qed

lemma refresh_stored_tag:
  assumes laws: "bloom_laws ext"
    and pull: "Pull_records ext (Open_fresh path) recs etag lastMod = Inr s2"
    and free: "\<forall>r\<in>set recs. Name r = name \<longrightarrow> sep_free (Tags r)"
    and user: "\<not> reserved_key name"
    and pkg: "GetPkg s2 name = Inr pkg"
    and tag: "tag \<in> set (Tags pkg)"
  shows "name \<noteq> [] \<and> (\<exists>f. GetFilter ext s2 (hd name) = Inr f \<and> Lookup ext f tag)"
proof -
  from Pull_records_run [OF laws pull] obtain collected F sa sb Fb d' mdata where
    loop: "Pull_loop ext recs 0 [] [] (Open_fresh path) = Inr (collected, F, sa)" and
    flush: "(if length collected \<noteq> 0 then WriteBatch ext sa (map snd collected) F
             else (None, sa, F)) = (None, sb, Fb)" and
    wl: "WriteFilters_loop ext False Fb (db sb) = (None, d')" and
    s2: "s2 = sb\<lparr>db := db_Set d' metaKey mdata\<rparr>" and
    st: "\<not> blocked sb" "\<not> db_closed sb" and dist: "distinct (map fst Fb)"
    by blast
  have c0: "key_covered ext name {v. map_of (db (Open_fresh path)) name = Some v} []"
    by (simp add: key_covered_def Open_fresh_def)
  have "\<forall>(k, e)\<in>set ([] :: (string \<times> Record) list).
          Name e = k \<and> (k = name \<longrightarrow> sep_free (Tags e))" by simp
  from Pull_loop_covered [OF laws free this c0 loop]
  have cov_a: "key_covered ext name {v. map_of (db sa) name = Some v} F"
    and col: "\<forall>(k, e)\<in>set collected. Name e = k \<and> (k = name \<longrightarrow> sep_free (Tags e))"
    by simp_all
  have cov_b: "key_covered ext name {v. map_of (db sb) name = Some v} Fb"
  proof (cases "length collected \<noteq> 0")
    case True
    with flush have w: "WriteBatch ext sa (map snd collected) F = (None, sb, Fb)" by simp
    from col have "\<forall>item\<in>set (map snd collected). Name item = name \<longrightarrow> sep_free (Tags item)"
      by auto
    from WriteBatch_covered [OF laws this cov_a w] show ?thesis .
  next
    case False
    with flush cov_a show ?thesis by simp
  qed
  note WF = WriteFilters_loop_written [OF laws dist wl]
  from pkg s2 st obtain v where
    v: "map_of (db_Set d' metaKey mdata) name = Some v" and
    tags: "Tags pkg = strings_Split (CHR 0x1F) v"
    by (auto simp: GetPkg_def TryRLock_def db_Get_def split: option.splits if_splits)
  from user have not_meta: "name \<noteq> metaKey" and
    not_filter: "name \<notin> (\<lambda>c. [CHR 0x02, c]) ` fst ` set Fb"
    by (auto simp: reserved_key_def)
  from v not_meta not_filter WF have "map_of (db sb) name = Some v"
    by (simp add: db_Set_def update_conv')
  with cov_b have ne: "name \<noteq> []" and
    c: "filter_covers ext Fb (hd name) (strings_Split (CHR 0x1F) v)"
    by (auto simp: key_covered_def)
  from GetFilter_after_refresh [OF laws dist wl s2 st c] tags tag ne show ?thesis by auto
qed

text \<open>
  C2, as amended.  The filter library keeps its contract (\<^const>\<open>bloom_laws\<close>) and a
  refresh of a fresh shadow shard runs to completion.  Then
  \<^item> every tag of every record it ingested under a non-empty name is reported by the
    filter stored under \<open>{0x02, name[0]}\<close>, which exists and decodes;
  \<^item> for every package of the shard whose name is not one of the shard's own keys and
    whose records contain no tag with the separator byte \<open>0x1F\<close>, every tag of the
    stored value is reported by that filter.
\<close>

theorem refresh_filter_no_false_negative:
  assumes laws: "bloom_laws ext"
    and pull: "Pull_records ext (Open_fresh path) recs etag lastMod = Inr s2"
  shows "(\<forall>r\<in>set recs. \<forall>tag\<in>set (Tags r). Name r \<noteq> [] \<longrightarrow>
            (\<exists>f. GetFilter ext s2 (hd (Name r)) = Inr f \<and> Lookup ext f tag))
       \<and> (\<forall>name pkg tag.
            (\<forall>r\<in>set recs. Name r = name \<longrightarrow> sep_free (Tags r)) \<and> \<not> reserved_key name
            \<and> GetPkg s2 name = Inr pkg \<and> tag \<in> set (Tags pkg) \<longrightarrow>
            name \<noteq> [] \<and> (\<exists>f. GetFilter ext s2 (hd name) = Inr f \<and> Lookup ext f tag))"
  using refresh_ingested_tag [OF laws pull] refresh_stored_tag [OF laws pull]
  by blast

text \<open>The example filter keeps the contract.\<close>

lemma bloom_laws_byte_bloom: "bloom_laws byte_bloom"
  by (simp add: bloom_laws_def byte_bloom_def)

text \<open>The definitions that evaluate a refresh with the example filter.\<close>

lemmas Pull_eval =
  Pull_records_def Pull_meta_def Open_fresh_def batchSize_def WriteBatch_def WriteFilters_def
  WriteMeta_def TryRLock_def joinTags_def db_Get_def db_Set_def batch_Commit_def byte_bloom_def
  last_byte_def metaKey_def Let_def

theorem refresh_filter_witness:
  "Pull_records byte_bloom (Open_fresh ''/data/r/db'') records_abc ''etag-1'' [] = Inr shard_abc
   \<and> GetPkg shard_abc ''ab'' = Inr \<lparr>Name = ''ab'', Tags = [''bin=ab'']\<rparr>
   \<and> (\<exists>f. GetFilter byte_bloom shard_abc (CHR ''a'') = Inr f \<and> Lookup byte_bloom f ''bin=ab'')
   \<and> (\<exists>f. GetFilter byte_bloom shard_abc (CHR ''b'') = Inr f \<and> Lookup byte_bloom f ''bin=b'')"
proof -
  have p: "Pull_records byte_bloom (Open_fresh ''/data/r/db'') records_abc ''etag-1'' []
             = Inr shard_abc"
    by (simp add: Pull_eval records_abc_def shard_abc_def)
  note T = refresh_filter_no_false_negative [OF bloom_laws_byte_bloom p]
  have f: "\<forall>r\<in>set records_abc. Name r = ''ab'' \<longrightarrow> sep_free (Tags r)"
    by (simp add: records_abc_def sep_free_def)
  have g: "GetPkg shard_abc ''ab'' = Inr \<lparr>Name = ''ab'', Tags = [''bin=ab'']\<rparr>"
    by (simp add: GetPkg_def TryRLock_def db_Get_def shard_abc_def)
  have u: "\<not> reserved_key ''ab''" by (simp add: reserved_key_def metaKey_def)
  have t: "''bin=ab'' \<in> set (Tags \<lparr>Name = ''ab'', Tags = [''bin=ab'']\<rparr>)" by simp
  from T f u g t
  have a: "\<exists>f. GetFilter byte_bloom shard_abc (hd ''ab'') = Inr f \<and> Lookup byte_bloom f ''bin=ab''"
    by blast
  let ?r = "\<lparr>Name = ''b'', Tags = [''bin=b''], Error = None\<rparr>"
  have "?r \<in> set records_abc" "''bin=b'' \<in> set (Tags ?r)" "Name ?r \<noteq> []"
    by (simp_all add: records_abc_def)
  with T have "\<exists>f. GetFilter byte_bloom shard_abc (hd (Name ?r)) = Inr f
      \<and> Lookup byte_bloom f ''bin=b''"
    by blast
  with a p g show ?thesis by simp
qed

text \<open>
  The claim as stated, for every tag of the stored value, fails for a tag that contains
  the separator: \<^verbatim>\<open>joinTags\<close> adds the tag \<open>k=a\<close>\<^verbatim>\<open>\x1F\<close>\<open>zz\<close> to the filter as
  one key, and the stored value reads back as the two tags \<open>k=a\<close> and \<open>zz\<close>, which were
  never added.  The example filter, which keeps the contract, reports the ingested tag
  and does not report \<open>k=a\<close>.
\<close>

theorem refresh_filter_separator_counterexample:
  "Pull_records byte_bloom (Open_fresh ''/data/r/distrohop-pull.2'') records_sep ''etag-3'' []
     = Inr shard_sep
   \<and> GetPkg shard_sep ''p'' = Inr \<lparr>Name = ''p'', Tags = [''k=a'', ''zz'']\<rparr>
   \<and> GetFilter byte_bloom shard_sep (CHR ''p'') = Inr ''z''
   \<and> \<not> Lookup byte_bloom ''z'' ''k=a''
   \<and> Lookup byte_bloom ''z'' (''k=a'' @ [CHR 0x1F] @ ''zz'')"
  by (simp add: Pull_eval records_sep_def shard_sep_def GetPkg_def GetFilter_def)

end
